theory Spec2Isabelle
  imports Main "HOL-Library.Sublist" "HOL-Library.Char_ord"
begin

section \<open>The text tools the release script calls\<close>

subsection \<open>Regular expressions\<close>

text \<open>
  \<^verbatim>\<open>scripts/release.sh\<close> matches text in three ways: the bash test
  \<^verbatim>\<open>[[ $x =~ ^re$ ]]\<close> (the whole string must match), \<^verbatim>\<open>sed 's/re/text/'\<close>
  (the leftmost, longest match of each line is replaced) and \<^verbatim>\<open>grep 're'\<close>
  (a line is selected when some part of it matches). The expressions use literal
  characters, bracket ranges, the dot, concatenation, \<^verbatim>\<open>*\<close>, \<^verbatim>\<open>+\<close> and
  \<^verbatim>\<open>?\<close>; they are matched here by derivatives. A bracket range is read by character
  code, as in the C locale.
\<close>

datatype rexp =
    Zero
  | One
  | Lit char
  | Class "(char \<times> char) list"
  | Dot
  | Seq rexp rexp
  | Alt rexp rexp
  | Star rexp

fun in_class :: "char \<Rightarrow> (char \<times> char) list \<Rightarrow> bool" where
  "in_class c [] = False"
| "in_class c ((lo, hi) # rs) = ((lo \<le> c \<and> c \<le> hi) \<or> in_class c rs)"

fun nullable :: "rexp \<Rightarrow> bool" where
  "nullable Zero = False"
| "nullable One = True"
| "nullable (Lit c) = False"
| "nullable (Class rs) = False"
| "nullable Dot = False"
| "nullable (Seq r s) = (nullable r \<and> nullable s)"
| "nullable (Alt r s) = (nullable r \<or> nullable s)"
| "nullable (Star r) = True"

definition seq :: "rexp \<Rightarrow> rexp \<Rightarrow> rexp" where
  "seq r s = (if r = Zero \<or> s = Zero then Zero else if r = One then s else Seq r s)"

definition alt :: "rexp \<Rightarrow> rexp \<Rightarrow> rexp" where
  "alt r s = (if r = Zero then s else if s = Zero then r else Alt r s)"

fun deriv :: "char \<Rightarrow> rexp \<Rightarrow> rexp" where
  "deriv c Zero = Zero"
| "deriv c One = Zero"
| "deriv c (Lit d) = (if c = d then One else Zero)"
| "deriv c (Class rs) = (if in_class c rs then One else Zero)"
| "deriv c Dot = One"
| "deriv c (Seq r s) =
     (if nullable r then alt (seq (deriv c r) s) (deriv c s) else seq (deriv c r) s)"
| "deriv c (Alt r s) = alt (deriv c r) (deriv c s)"
| "deriv c (Star r) = seq (deriv c r) (Star r)"

definition Rep1 :: "rexp \<Rightarrow> rexp" where
  "Rep1 r = Seq r (Star r)"

definition Opt :: "rexp \<Rightarrow> rexp" where
  "Opt r = Alt r One"

fun lits :: "string \<Rightarrow> rexp" where
  "lits [] = One"
| "lits (c # cs) = Seq (Lit c) (lits cs)"

text \<open>\<^verbatim>\<open>[[ s =~ ^r$ ]]\<close>: the whole of \<open>s\<close> matches \<open>r\<close>.\<close>

fun matches :: "rexp \<Rightarrow> string \<Rightarrow> bool" where
  "matches r [] = nullable r"
| "matches r (c # cs) = matches (deriv c r) cs"

text \<open>The length of the longest prefix of a string that matches, if any prefix does.\<close>

fun longest_match :: "rexp \<Rightarrow> string \<Rightarrow> nat option" where
  "longest_match r [] = (if nullable r then Some 0 else None)"
| "longest_match r (c # cs) =
     (case longest_match (deriv c r) cs of
        Some n \<Rightarrow> Some (Suc n)
      | None \<Rightarrow> if nullable r then Some 0 else None)"

text \<open>
  \<^verbatim>\<open>sed 's/r/rep/'\<close> on one line: the first position at which a match starts is
  taken, the longest match from there is replaced by \<open>rep\<close>, and the rest of the
  line is kept. A line with no match is unchanged. The replacement texts of the script
  hold the version or the version code; a validated version has no character that
  \<^verbatim>\<open>sed\<close> treats specially (\<^verbatim>\<open>&\<close>, \<^verbatim>\<open>\\<close>, \<^verbatim>\<open>/\<close>), so the text is
  inserted as it is.
\<close>

fun sed_s :: "rexp \<Rightarrow> string \<Rightarrow> string \<Rightarrow> string" where
  "sed_s r rep [] = (if nullable r then rep else [])"
| "sed_s r rep (c # cs) =
     (case longest_match r (c # cs) of
        Some n \<Rightarrow> rep @ drop n (c # cs)
      | None \<Rightarrow> c # sed_s r rep cs)"

text \<open>\<^verbatim>\<open>grep 'r'\<close>: does some part of the line match?\<close>

fun grep_line :: "rexp \<Rightarrow> string \<Rightarrow> bool" where
  "grep_line r [] = nullable r"
| "grep_line r (c # cs) = (longest_match r (c # cs) \<noteq> None \<or> grep_line r cs)"

subsection \<open>Numbers as \<^verbatim>\<open>awk\<close> reads and prints them\<close>

definition is_digit :: "char \<Rightarrow> bool" where
  "is_digit c = (CHR ''0'' \<le> c \<and> c \<le> CHR ''9'')"

definition digit_val :: "char \<Rightarrow> nat" where
  "digit_val c = of_char c - 48"

definition digit_chr :: "nat \<Rightarrow> char" where
  "digit_chr d = char_of (48 + d)"

text \<open>
  The value \<^verbatim>\<open>awk\<close> gives a field used as a number: the decimal value of its
  leading digits (none: 0). The fields the script feeds it are runs of digits, see
  \<open>validate_version\<close>. \<^verbatim>\<open>awk\<close> computes in double precision, which is exact for
  the integers below \<open>2^53\<close>; the model computes in \<open>nat\<close>.
\<close>

definition awk_num :: "string \<Rightarrow> nat" where
  "awk_num s = foldl (\<lambda>n c. 10 * n + digit_val c) 0 (takeWhile is_digit s)"

text \<open>\<^verbatim>\<open>printf "%d"\<close> of a non-negative integer.\<close>

function dec :: "nat \<Rightarrow> string" where
  "dec n = (if n < 10 then [digit_chr n] else dec (n div 10) @ [digit_chr (n mod 10)])"
  by pat_completeness auto
termination
  by (relation "measure id") auto

declare dec.simps [simp del]

text \<open>\<^verbatim>\<open>printf "%02d"\<close>: at least two digits, padded with zeros on the left.\<close>

definition dec2 :: "nat \<Rightarrow> string" where
  "dec2 n = replicate (2 - length (dec n)) (CHR ''0'') @ dec n"

text \<open>
  \<^verbatim>\<open>awk -F.\<close> splits the record at every dot; a field past the last one is the
  empty string.
\<close>

fun split_on :: "char \<Rightarrow> string \<Rightarrow> string list" where
  "split_on d [] = [[]]"
| "split_on d (c # cs) =
     (if c = d then [] # split_on d cs
      else (case split_on d cs of
              [] \<Rightarrow> [[c]]
            | f # fs \<Rightarrow> (c # f) # fs))"

definition awk_field :: "nat \<Rightarrow> string list \<Rightarrow> string" where
  "awk_field i fs = (if 0 < i \<and> i \<le> length fs then fs ! (i - 1) else [])"

subsection \<open>The patterns of the script\<close>

definition digit_re :: rexp where
  "digit_re = Class [(CHR ''0'', CHR ''9'')]"

text \<open>
  Line 138:
  \<^verbatim>\<open>^[0-9]+\.[0-9]+\.[0-9]+(-[a-zA-Z0-9.]+)?$\<close>
\<close>

definition label_re :: rexp where
  "label_re =
     Class [(CHR ''a'', CHR ''z''), (CHR ''A'', CHR ''Z''), (CHR ''0'', CHR ''9''),
            (CHR ''.'', CHR ''.'')]"

definition semver_re :: rexp where
  "semver_re =
     Seq (Rep1 digit_re) (Seq (Lit CHR ''.'') (Seq (Rep1 digit_re) (Seq (Lit CHR ''.'')
       (Seq (Rep1 digit_re) (Opt (Seq (Lit CHR ''-'') (Rep1 label_re)))))))"

text \<open>Lines 165, 184, 402: \<^verbatim>\<open>^[Yy]$\<close>\<close>

definition yes_re :: rexp where
  "yes_re = Class [(CHR ''Y'', CHR ''Y''), (CHR ''y'', CHR ''y'')]"

text \<open>Line 243: \<^verbatim>\<open>sed 's/-.*//'\<close>\<close>

definition dash_re :: rexp where
  "dash_re = Seq (Lit CHR ''-'') (Star Dot)"

text \<open>Lines 222, 225: \<^verbatim>\<open>s/"version": ".*"/"version": "$version"/\<close>\<close>

definition DQ :: char where
  "DQ = CHR 0x22"

definition pkg_key :: string where
  "pkg_key = DQ # ''version'' @ DQ # '': '' @ [DQ]"

definition pkg_version_re :: rexp where
  "pkg_version_re = Seq (lits pkg_key) (Seq (Star Dot) (Lit DQ))"

text \<open>Line 232: \<^verbatim>\<open>grep '"version"'\<close>\<close>

definition version_word_re :: rexp where
  "version_word_re = lits (DQ # ''version'' @ [DQ])"

text \<open>Lines 250, 253: \<^verbatim>\<open>s/versionCode [0-9]*/versionCode $version_code/\<close>\<close>

definition code_key :: string where
  "code_key = ''versionCode ''"

definition version_code_re :: rexp where
  "version_code_re = Seq (lits code_key) (Star digit_re)"

text \<open>Lines 251, 254: \<^verbatim>\<open>s/versionName ".*"/versionName "$version"/\<close>\<close>

definition name_key :: string where
  "name_key = ''versionName '' @ [DQ]"

definition version_name_re :: rexp where
  "version_name_re = Seq (lits name_key) (Seq (Star Dot) (Lit DQ))"

text \<open>
  Line 243, the version code:
  \<^verbatim>\<open>echo "$version" | sed 's/-.*//' | awk -F. '{printf "%d%02d%02d", $1, $2, $3}'\<close>.
  The version is one line here: \<open>update_android_version\<close> runs after
  \<open>validate_version\<close>, whose pattern admits no line break.
\<close>

definition version_code :: "string \<Rightarrow> string" where
  "version_code version =
     (let fs = split_on (CHR ''.'') (sed_s dash_re [] version)
      in dec (awk_num (awk_field 1 fs)) @ dec2 (awk_num (awk_field 2 fs)) @
         dec2 (awk_num (awk_field 3 fs)))"

section \<open>The release script as a state transformer\<close>

subsection \<open>What a run reads and what it changes\<close>

text \<open>
  \<open>line\<close> is one call of the printing helpers of lines 45 to 94; colours and
  glyphs are left out. \<open>Prompt\<close> is the text of a \<^verbatim>\<open>read -p\<close>.
\<close>

datatype line =
    Header
  | Usage
  | Plain string
  | Success string
  | Error string
  | Warning string
  | Info string
  | Step string
  | Prompt string

text \<open>
  The commands whose failure ends the script through \<^verbatim>\<open>set -e\<close> (line 24): the script
  then exits with the status of the failed command.
\<close>

datatype command = Read | Jq | Grep | GitAdd | GitCommit | GitTag | GitPushBranch | GitPushTag

text \<open>How a run ends: one constructor for each place where the script stops.\<close>

datatype outcome =
    HelpShown
  | UnknownOption
  | MultipleVersions
  | VersionRequired
  | InvalidVersion
  | MissingDependencies
  | NotGitRepository
  | AbortedByUser
  | TagAlreadyExists
  | ReleaseCancelled
  | DryRunCompleted
  | TestsFailed
  | BuildFailed
  | ErrExit command
  | Completed

text \<open>The actions that change files, the repository or the remote, as a run attempts them.\<close>

datatype action =
    WritePackageJson
  | WriteBuildGradle
  | NpmTest
  | GradleBuild
  | GitAddFiles
  | GitCommitChanges
  | GitTagCreate
  | PushBranch
  | PushTag

text \<open>
  A JSON document as \<^verbatim>\<open>jq\<close> holds it; an object keeps its keys in order.
\<close>

datatype json =
    JNull
  | JBool bool
  | JNum string
  | JStr string
  | JArr "json list"
  | JObj "(string \<times> json) list"

text \<open>
  The environment of a run: what the programs the script calls answer. The exit statuses
  are those of \<^verbatim>\<open>npm test\<close>, \<^verbatim>\<open>./gradlew assembleRelease\<close>, \<^verbatim>\<open>git add\<close>,
  \<^verbatim>\<open>git commit\<close>, \<^verbatim>\<open>git tag -a\<close> and the two \<^verbatim>\<open>git push\<close>; \<open>status_s\<close> is
  the output of \<^verbatim>\<open>git status -s\<close>, \<open>other_revs\<close> the names other than local tags
  that \<^verbatim>\<open>git rev-parse\<close> resolves, \<open>origin_path\<close> the owner and name taken from the
  remote's address (lines 446, 447), and \<open>json_parse\<close>, \<open>json_print\<close> the reader and
  the printer of \<^verbatim>\<open>jq\<close>: a file holds a sequence of documents, or is not JSON.

  Both descriptor files exist and can be written. The test runner and the build are
  taken to leave the two descriptor files and the repository alone; the \<^verbatim>\<open>git\<close>
  commands change the repository as written at each call.
\<close>

record env =
  has_git :: bool
  has_node :: bool
  has_jq :: bool
  in_git_repo :: bool
  status_s :: "string list"
  branch_name :: string
  other_revs :: "string list"
  npm_test_status :: nat
  gradlew_status :: nat
  git_add_status :: nat
  git_commit_status :: nat
  git_tag_status :: nat
  push_branch_status :: nat
  push_tag_status :: nat
  origin_path :: string
  json_parse :: "string list \<Rightarrow> json list option"
  json_print :: "json \<Rightarrow> string list"

text \<open>The flags of lines 458 to 463.\<close>

record opts =
  VERSION :: string
  SKIP_TESTS :: bool
  SKIP_BUILD :: bool
  PRERELEASE :: bool
  DRY_RUN :: bool
  FORCE :: bool

record commit =
  message :: "string list"
  committed_package_json :: "string list"
  committed_build_gradle :: "string list"

text \<open>
  The state a run works on: the two descriptor files as lines, the index, the commits,
  the local tags (each bound to the number of commits it was made at), what has been
  pushed, the characters waiting on standard input, what has been printed, the shell
  variables \<^verbatim>\<open>USE_JQ\<close>, \<^verbatim>\<open>CURRENT_BRANCH\<close> and \<^verbatim>\<open>REPLY\<close>, and the actions attempted
  so far with the exit status of each.
\<close>

record world =
  package_json :: "string list"
  build_gradle :: "string list"
  staged :: "(string list \<times> string list) option"
  commits :: "commit list"
  tags :: "(string \<times> nat) list"
  remote_branches :: "(string \<times> nat) list"
  remote_tags :: "string list"
  stdin :: string
  stdout :: "line list"
  USE_JQ :: bool
  CURRENT_BRANCH :: string
  REPLY :: string
  trace :: "(action \<times> nat) list"

text \<open>A step of the script goes on with a state, or stops the script with an exit status.\<close>

datatype step = Continue world | Stop outcome nat world

definition and_then :: "step \<Rightarrow> (world \<Rightarrow> step) \<Rightarrow> step" where
  "and_then s f = (case s of Continue w \<Rightarrow> f w | Stop out code w \<Rightarrow> Stop out code w)"

definition say :: "line \<Rightarrow> world \<Rightarrow> world" where
  "say l w = w\<lparr>stdout := stdout w @ [l]\<rparr>"

definition says :: "line list \<Rightarrow> world \<Rightarrow> world" where
  "says ls w = w\<lparr>stdout := stdout w @ ls\<rparr>"

definition attempt :: "action \<Rightarrow> nat \<Rightarrow> world \<Rightarrow> world" where
  "attempt a status w = w\<lparr>trace := trace w @ [(a, status)]\<rparr>"

text \<open>
  \<^verbatim>\<open>read -p prompt -n 1 -r\<close> followed by \<^verbatim>\<open>echo\<close>: one character is taken from
  standard input into \<^verbatim>\<open>REPLY\<close> (a line break leaves it empty). At the end of input
  \<^verbatim>\<open>read\<close> fails, and \<^verbatim>\<open>set -e\<close> ends the script with its status 1.
\<close>

definition read_reply :: "string \<Rightarrow> world \<Rightarrow> step" where
  "read_reply prompt w =
     (case stdin w of
        [] \<Rightarrow> Stop (ErrExit Read) 1 (say (Prompt prompt) w)
      | c # cs \<Rightarrow>
          Continue (say (Plain [])
            ((say (Prompt prompt) w)\<lparr>stdin := cs, REPLY := (if c = CHR 0x0A then [] else [c])\<rparr>)))"

text \<open>
  The three confirmations (lines 163 to 168, 182 to 187, 400 to 405): anything but a
  single \<^verbatim>\<open>y\<close> or \<^verbatim>\<open>Y\<close> stops the script with status 1.
\<close>

definition confirm :: "string \<Rightarrow> outcome \<Rightarrow> string \<Rightarrow> world \<Rightarrow> step" where
  "confirm prompt out msg w =
     and_then (read_reply prompt w)
       (\<lambda>w. if \<not> matches yes_re (REPLY w) then Stop out 1 (say (Error msg) w) else Continue w)"

subsection \<open>Validation functions (lines 100 to 201)\<close>

fun unwords :: "string list \<Rightarrow> string" where
  "unwords [] = []"
| "unwords [x] = x"
| "unwords (x # y # ys) = x @ '' '' @ unwords (y # ys)"

definition check_dependencies :: "env \<Rightarrow> world \<Rightarrow> step" where
  "check_dependencies e w =
     (let w1 = say (Step ''Checking dependencies'') w;
          missing_deps =
            (if has_git e then [] else [''git'']) @ (if has_node e then [] else [''node'']);
          w2 = (if \<not> has_jq e
                then (says
                   [Warning ''jq is not installed. Installing it is recommended for JSON manipulation.'',
                    Info ''macOS: brew install jq'',
                    Info ''Linux: sudo apt-get install jq''] w1)\<lparr>USE_JQ := False\<rparr>
                else say (Success ''jq is available'') (w1\<lparr>USE_JQ := True\<rparr>))
      in if missing_deps \<noteq> []
         then Stop MissingDependencies 1
                (say (Error (''Missing required dependencies: '' @ unwords missing_deps)) w2)
         else Continue (say (Success ''All required dependencies found'') w2))"

definition validate_version :: "string \<Rightarrow> world \<Rightarrow> bool \<times> world" where
  "validate_version version w =
     (if \<not> matches semver_re version
      then (False,
            says [Error (''Invalid version format: '' @ version),
                  Info ''Version must follow semantic versioning (e.g., 1.0.0, 1.2.3-beta)''] w)
      else (True, w))"

definition check_git_status :: "env \<Rightarrow> opts \<Rightarrow> world \<Rightarrow> step" where
  "check_git_status e fl w =
     (let w1 = say (Step ''Checking git status'') w in
      if \<not> in_git_repo e
      then Stop NotGitRepository 1 (say (Error ''Not in a git repository'') w1)
      else
        and_then
          (if concat (status_s e) \<noteq> []
           then (let w2 = says (Warning ''You have uncommitted changes:'' # map Plain (status_s e)) w1
                 in if \<not> FORCE fl
                    then confirm ''Continue anyway? (y/n) '' AbortedByUser ''Aborted by user''
                           (say (Plain []) w2)
                    else Continue w2)
           else Continue (say (Success ''Working directory is clean'') w1))
          (\<lambda>w3.
             let w4 = say (Info (''Current branch: '' @ branch_name e))
                        (w3\<lparr>CURRENT_BRANCH := branch_name e\<rparr>)
             in if branch_name e \<noteq> ''main'' \<and> branch_name e \<noteq> ''master''
                then (let w5 = say (Warning ''Not on main/master branch'') w4
                      in if \<not> FORCE fl
                         then confirm ''Continue anyway? (y/n) '' AbortedByUser ''Aborted by user'' w5
                         else Continue w5)
                else Continue w4))"

text \<open>\<^verbatim>\<open>git rev-parse "$tag"\<close> succeeds when the name resolves; a local tag does.\<close>

definition git_rev_parse :: "env \<Rightarrow> world \<Rightarrow> string \<Rightarrow> bool" where
  "git_rev_parse e w name = (name \<in> set (map fst (tags w)) \<or> name \<in> set (other_revs e))"

definition check_tag_exists :: "env \<Rightarrow> string \<Rightarrow> world \<Rightarrow> step" where
  "check_tag_exists e version w =
     (let tag = ''v'' @ version
      in if git_rev_parse e w tag
         then Stop TagAlreadyExists 1
                (says [Error (''Tag '' @ tag @ '' already exists''),
                       Info (''Delete it with: git tag -d '' @ tag)] w)
         else Continue w)"

subsection \<open>Version bump functions (lines 207 to 260)\<close>

text \<open>
  \<^verbatim>\<open>jq --arg version "$version" '.version = $version'\<close> on one document: the key of
  an object is set in place or added at the end, \<^verbatim>\<open>null\<close> becomes an object, and
  any other value is an error.
\<close>

fun set_key :: "string \<Rightarrow> json \<Rightarrow> (string \<times> json) list \<Rightarrow> (string \<times> json) list" where
  "set_key k v [] = [(k, v)]"
| "set_key k v ((k', v') # kvs) =
     (if k' = k then (k, v) # kvs else (k', v') # set_key k v kvs)"

fun jq_assign_version :: "string \<Rightarrow> json \<Rightarrow> json option" where
  "jq_assign_version version (JObj kvs) = Some (JObj (set_key ''version'' (JStr version) kvs))"
| "jq_assign_version version JNull = Some (JObj [(''version'', JStr version)])"
| "jq_assign_version version j = None"

text \<open>
  Line 215, \<^verbatim>\<open>jq ... "$PACKAGE_JSON" > "$temp_file"\<close>: the text \<^verbatim>\<open>jq\<close> prints, or
  its exit status when it fails (2: the file is not JSON, 5: the filter failed on a
  document).
\<close>

definition jq_set_version :: "env \<Rightarrow> string \<Rightarrow> string list \<Rightarrow> nat + string list" where
  "jq_set_version e version content =
     (case json_parse e content of
        None \<Rightarrow> Inl 2
      | Some docs \<Rightarrow>
          (case those (map (jq_assign_version version) docs) of
             None \<Rightarrow> Inl 5
           | Some docs' \<Rightarrow> Inr (concat (map (json_print e) docs'))))"

text \<open>
  Lines 222 and 225, \<^verbatim>\<open>sed -i\<close> on the manifest, and lines 250 to 254, the two
  \<^verbatim>\<open>sed -i\<close> on the build descriptor. The branches on \<^verbatim>\<open>$OSTYPE\<close> run the same
  \<^verbatim>\<open>sed\<close> scripts.
\<close>

definition sed_package_json :: "string \<Rightarrow> string list \<Rightarrow> string list" where
  "sed_package_json version content =
     map (sed_s pkg_version_re (pkg_key @ version @ [DQ])) content"

definition sed_build_gradle :: "string \<Rightarrow> string list \<Rightarrow> string list" where
  "sed_build_gradle version content =
     map (sed_s version_name_re (name_key @ version @ [DQ]))
       (map (sed_s version_code_re (code_key @ version_code version)) content)"

text \<open>
  With \<^verbatim>\<open>jq\<close> the manifest is rewritten through a temporary file, which replaces it
  only when \<^verbatim>\<open>jq\<close> succeeded; without it \<^verbatim>\<open>sed\<close> edits the file in place. The
  closing \<^verbatim>\<open>grep\<close> (line 232) fails when no line holds the word, and \<^verbatim>\<open>set -e\<close>
  then ends the script with status 1.
\<close>

definition update_package_json :: "env \<Rightarrow> string \<Rightarrow> world \<Rightarrow> step" where
  "update_package_json e version w =
     (let w1 = say (Step ''Updating package.json'') w in
      and_then
        (if USE_JQ w1
         then (case jq_set_version e version (package_json w1) of
                 Inl status \<Rightarrow> Stop (ErrExit Jq) status (attempt WritePackageJson status w1)
               | Inr content \<Rightarrow>
                   Continue
                     (say (Success (''Updated package.json to version '' @ version))
                        (attempt WritePackageJson 0 (w1\<lparr>package_json := content\<rparr>))))
         else Continue
                (say (Success (''Updated package.json to version '' @ version))
                   (attempt WritePackageJson 0
                      (w1\<lparr>package_json := sed_package_json version (package_json w1)\<rparr>))))
        (\<lambda>w2.
           let w3 = say (Info ''New version in package.json:'') w2;
               hits = filter (grep_line version_word_re) (package_json w3)
           in if hits = [] then Stop (ErrExit Grep) 1 w3
              else Continue (says (map Plain hits) w3)))"

definition update_android_version :: "string \<Rightarrow> world \<Rightarrow> step" where
  "update_android_version version w =
     (let w1 = say (Step ''Updating Android build.gradle'') w;
          code = version_code version;
          w2 = says [Info (''Version: '' @ version), Info (''Version Code: '' @ code)] w1;
          w3 = attempt WriteBuildGradle 0
                 (w2\<lparr>build_gradle := sed_build_gradle version (build_gradle w2)\<rparr>)
      in Continue
           (says [Success ''Updated Android build.gradle'',
                  Info (''versionCode: '' @ code),
                  Info (''versionName: '' @ version)] w3))"

subsection \<open>Build and test functions (lines 266 to 300)\<close>

definition run_tests :: "env \<Rightarrow> opts \<Rightarrow> world \<Rightarrow> step" where
  "run_tests e fl w =
     (if SKIP_TESTS fl then Continue (say (Warning ''Skipping tests (--skip-tests)'') w)
      else (let w1 = attempt NpmTest (npm_test_status e) (say (Step ''Running tests'') w)
            in if npm_test_status e = 0 then Continue (say (Success ''All tests passed'') w1)
               else Stop TestsFailed 1 (say (Error ''Tests failed'') w1)))"

definition verify_build :: "env \<Rightarrow> opts \<Rightarrow> world \<Rightarrow> step" where
  "verify_build e fl w =
     (if SKIP_BUILD fl
      then Continue (say (Warning ''Skipping build verification (--skip-build)'') w)
      else (let w1 = attempt GradleBuild (gradlew_status e)
                       (say (Step ''Verifying Android build'') w)
            in if gradlew_status e = 0 then Continue (say (Success ''Android build successful'') w1)
               else Stop BuildFailed 1 (say (Error ''Android build failed'') w1)))"

subsection \<open>Git functions (lines 306 to 360)\<close>

definition commit_message :: "string \<Rightarrow> string list" where
  "commit_message version =
     [''chore: bump version to '' @ version,
      [],
      ''- Updated package.json version'',
      ''- Updated Android versionCode and versionName'',
      ''- Preparing for release v'' @ version]"

text \<open>
  \<^verbatim>\<open>git add\<close> of the two descriptors, then \<^verbatim>\<open>git commit\<close>; a failure of either ends
  the script with that command's status.
\<close>

definition commit_version_changes :: "env \<Rightarrow> string \<Rightarrow> world \<Rightarrow> step" where
  "commit_version_changes e version w =
     (let w1 = say (Step ''Committing version changes'') w in
      if git_add_status e \<noteq> 0
      then Stop (ErrExit GitAdd) (git_add_status e) (attempt GitAddFiles (git_add_status e) w1)
      else
        (let w2 = attempt GitAddFiles 0
                    (w1\<lparr>staged := Some (package_json w1, build_gradle w1)\<rparr>)
         in if git_commit_status e \<noteq> 0
            then Stop (ErrExit GitCommit) (git_commit_status e)
                   (attempt GitCommitChanges (git_commit_status e) w2)
            else Continue
                   (say (Success ''Changes committed'')
                      (attempt GitCommitChanges 0
                         (w2\<lparr>commits := commits w2 @
                               [\<lparr>message = commit_message version,
                                 committed_package_json = package_json w2,
                                 committed_build_gradle = build_gradle w2\<rparr>],
                             staged := None\<rparr>)))))"

text \<open>
  \<^verbatim>\<open>git tag -a\<close> refuses a name that is taken (status 128); then the branch is pushed,
  then the tag.
\<close>

definition create_and_push_tag :: "env \<Rightarrow> string \<Rightarrow> world \<Rightarrow> step" where
  "create_and_push_tag e version w =
     (let tag = ''v'' @ version;
          w1 = say (Step ''Creating git tag'') w;
          st = (if tag \<in> set (map fst (tags w1)) then 128 else git_tag_status e)
      in if st \<noteq> 0 then Stop (ErrExit GitTag) st (attempt GitTagCreate st w1)
         else
           (let w2 = say (Step ''Pushing to remote'')
                       (say (Success (''Tag '' @ tag @ '' created''))
                          (attempt GitTagCreate 0
                             (w1\<lparr>tags := tags w1 @ [(tag, length (commits w1))]\<rparr>)))
            in if push_branch_status e \<noteq> 0
               then Stop (ErrExit GitPushBranch) (push_branch_status e)
                      (attempt PushBranch (push_branch_status e) w2)
               else
                 (let w3 = say (Success (''Pushed commit to '' @ CURRENT_BRANCH w2))
                             (attempt PushBranch 0
                                (w2\<lparr>remote_branches := remote_branches w2 @
                                      [(CURRENT_BRANCH w2, length (commits w2))]\<rparr>))
                  in if push_tag_status e \<noteq> 0
                     then Stop (ErrExit GitPushTag) (push_tag_status e)
                            (attempt PushTag (push_tag_status e) w3)
                     else Continue
                            (says [Success (''Pushed tag '' @ tag),
                                   Info ''GitHub Actions will now build the release'']
                               (attempt PushTag 0
                                  (w3\<lparr>remote_tags := remote_tags w3 @ [tag]\<rparr>))))))"

subsection \<open>Main release process (lines 366 to 450)\<close>

definition show_flag :: "bool \<Rightarrow> string" where
  "show_flag b = (if b then ''true'' else ''false'')"

definition release_summary :: "opts \<Rightarrow> string \<Rightarrow> world \<Rightarrow> line list" where
  "release_summary fl version w =
     [Plain ''Release Summary:'',
      Plain (''  Version:      '' @ version),
      Plain (''  Tag:          v'' @ version),
      Plain (''  Branch:       '' @ CURRENT_BRANCH w),
      Plain (''  Skip Tests:   '' @ show_flag (SKIP_TESTS fl)),
      Plain (''  Skip Build:   '' @ show_flag (SKIP_BUILD fl)),
      Plain []]"

definition dry_run_report :: "string \<Rightarrow> line list" where
  "dry_run_report version =
     [Warning ''DRY RUN MODE - No changes will be made'',
      Plain [],
      Info (''Would update package.json to version '' @ version),
      Info ''Would update Android build.gradle'',
      Info ''Would run tests (if not skipped)'',
      Info ''Would verify build (if not skipped)'',
      Info ''Would commit changes'',
      Info (''Would create and push tag v'' @ version),
      Info ''Would trigger CI/CD pipeline'',
      Plain [],
      Success ''Dry run completed'']"

definition success_report :: "env \<Rightarrow> string \<Rightarrow> line list" where
  "success_report e version =
     [Plain [],
      Success (''Release '' @ version @ '' completed successfully!''),
      Plain [],
      Info ''Next steps:'',
      Info (''1. Monitor the build at: https://github.com/'' @ origin_path e @ ''/actions''),
      Info (''2. Download artifacts from: https://github.com/'' @ origin_path e @
            ''/releases/tag/v'' @ version),
      Info ''3. Test the built APK and .app'',
      Plain []]"

definition perform_release :: "env \<Rightarrow> opts \<Rightarrow> string \<Rightarrow> world \<Rightarrow> step" where
  "perform_release e fl version w =
     (let w0 = says [Header, Plain (''Release Version: '' @ version),
                     Plain (''Tag: v'' @ version), Plain []] w
      in case validate_version version w0 of
           (False, w1) \<Rightarrow> Stop InvalidVersion 1 w1
         | (True, w1) \<Rightarrow>
             and_then (check_dependencies e w1) (\<lambda>w.
             and_then (check_git_status e fl w) (\<lambda>w.
             and_then (check_tag_exists e version w) (\<lambda>w.
             and_then
               (if \<not> DRY_RUN fl \<and> \<not> FORCE fl
                then confirm ''Continue with release? (y/n) '' ReleaseCancelled
                       ''Release cancelled by user'' (says (release_summary fl version w) w)
                else Continue w) (\<lambda>w.
             if DRY_RUN fl then Stop DryRunCompleted 0 (says (dry_run_report version) w)
             else
               and_then (update_package_json e version w) (\<lambda>w.
               and_then (update_android_version version w) (\<lambda>w.
               and_then (run_tests e fl w) (\<lambda>w.
               and_then (verify_build e fl w) (\<lambda>w.
               and_then (commit_version_changes e version w) (\<lambda>w.
               and_then (create_and_push_tag e version w) (\<lambda>w.
               Continue (says (success_report e version) w))))))))))))"

subsection \<open>Entry point (lines 456 to 519)\<close>

datatype parsed = Parsed opts world | Halted outcome nat world

fun parse_args :: "string list \<Rightarrow> opts \<Rightarrow> world \<Rightarrow> parsed" where
  "parse_args [] fl w = Parsed fl w"
| "parse_args (a # args) fl w =
     (if a = ''-h'' \<or> a = ''--help'' then Halted HelpShown 0 (say Usage w)
      else if a = ''--skip-tests'' then parse_args args (fl\<lparr>SKIP_TESTS := True\<rparr>) w
      else if a = ''--skip-build'' then parse_args args (fl\<lparr>SKIP_BUILD := True\<rparr>) w
      else if a = ''--prerelease'' then parse_args args (fl\<lparr>PRERELEASE := True\<rparr>) w
      else if a = ''--dry-run'' then parse_args args (fl\<lparr>DRY_RUN := True\<rparr>) w
      else if a = ''--force'' then parse_args args (fl\<lparr>FORCE := True\<rparr>) w
      else if take 1 a = ''-''
      then Halted UnknownOption 1 (says [Error (''Unknown option: '' @ a), Usage] w)
      else if VERSION fl = [] then parse_args args (fl\<lparr>VERSION := a\<rparr>) w
      else Halted MultipleVersions 1 (says [Error ''Multiple versions specified'', Usage] w))"

definition no_flags :: opts where
  "no_flags =
     \<lparr>VERSION = [], SKIP_TESTS = False, SKIP_BUILD = False, PRERELEASE = False,
      DRY_RUN = False, FORCE = False\<rparr>"

text \<open>A run of the script: how it ended, its exit status and the state it left.\<close>

definition main :: "env \<Rightarrow> string list \<Rightarrow> world \<Rightarrow> outcome \<times> nat \<times> world" where
  "main e args w =
     (case parse_args args no_flags w of
        Halted out code w' \<Rightarrow> (out, code, w')
      | Parsed fl w' \<Rightarrow>
          if VERSION fl = []
          then (VersionRequired, 1, says [Error ''Version number required'', Plain [], Usage] w')
          else (case perform_release e fl (VERSION fl) w' of
                  Stop out code w'' \<Rightarrow> (out, code, w'')
                | Continue w'' \<Rightarrow> (Completed, 0, w'')))"

section \<open>Notions the properties are stated with\<close>

definition final :: "step \<Rightarrow> world" where
  "final s = (case s of Continue w \<Rightarrow> w | Stop out code w \<Rightarrow> w)"

text \<open>
  Nothing lasting has changed between two states: the descriptor files, the index, the
  commits, the local tags and the remote are the same, and no action was attempted.
\<close>

definition untouched :: "world \<Rightarrow> world \<Rightarrow> bool" where
  "untouched w w' =
     (package_json w' = package_json w \<and> build_gradle w' = build_gradle w \<and>
      staged w' = staged w \<and> commits w' = commits w \<and> tags w' = tags w \<and>
      remote_branches w' = remote_branches w \<and> remote_tags w' = remote_tags w \<and>
      trace w' = trace w)"

text \<open>Nothing has been staged, committed, tagged or pushed between two states.\<close>

definition unpublished :: "world \<Rightarrow> world \<Rightarrow> bool" where
  "unpublished w w' =
     (staged w' = staged w \<and> commits w' = commits w \<and> tags w' = tags w \<and>
      remote_branches w' = remote_branches w \<and> remote_tags w' = remote_tags w)"


text \<open>
  \<open>perform_release\<close> in two phases, for the proofs: everything up to the confirmation
  (lines 369 to 406), and the steps of a live run (lines 423 to 449). Lemma
  \<open>perform_release_phases\<close> below shows that they compose to \<open>perform_release\<close>.
\<close>

definition preflight :: "env \<Rightarrow> opts \<Rightarrow> string \<Rightarrow> world \<Rightarrow> step" where
  "preflight e fl version w =
     (let w0 = says [Header, Plain (''Release Version: '' @ version),
                     Plain (''Tag: v'' @ version), Plain []] w
      in case validate_version version w0 of
           (False, w1) \<Rightarrow> Stop InvalidVersion 1 w1
         | (True, w1) \<Rightarrow>
             and_then (check_dependencies e w1) (\<lambda>w.
             and_then (check_git_status e fl w) (\<lambda>w.
             and_then (check_tag_exists e version w) (\<lambda>w.
               if \<not> DRY_RUN fl \<and> \<not> FORCE fl
               then confirm ''Continue with release? (y/n) '' ReleaseCancelled
                      ''Release cancelled by user'' (says (release_summary fl version w) w)
               else Continue w))))"

definition live_steps :: "env \<Rightarrow> opts \<Rightarrow> string \<Rightarrow> world \<Rightarrow> step" where
  "live_steps e fl version w =
     and_then (update_package_json e version w) (\<lambda>w.
     and_then (update_android_version version w) (\<lambda>w.
     and_then (run_tests e fl w) (\<lambda>w.
     and_then (verify_build e fl w) (\<lambda>w.
     and_then (commit_version_changes e version w) (\<lambda>w.
     and_then (create_and_push_tag e version w) (\<lambda>w.
     Continue (says (success_report e version) w)))))))"

text \<open>
  A trace that stopped inside the actions \<open>acts\<close>: it attempts them in order, every
  action but the last one attempted has status 0, and at least one was attempted.
\<close>

fun stopped_in :: "action list \<Rightarrow> (action \<times> nat) list \<Rightarrow> bool" where
  "stopped_in [] tr = False"
| "stopped_in (a # acts) [] = False"
| "stopped_in (a # acts) ((b, st) # tr) =
     (a = b \<and> (tr = [] \<or> (st = 0 \<and> stopped_in acts tr)))"

text \<open>
  A step attempts the actions \<open>acts\<close>: when it goes on, it has attempted each of them in
  order and each succeeded; when it stops, it stopped inside them.
\<close>

definition attempts :: "action list \<Rightarrow> world \<Rightarrow> step \<Rightarrow> bool" where
  "attempts acts w s =
     (\<exists>tr. trace (final s) = trace w @ tr \<and>
        (case s of
           Continue w' \<Rightarrow> tr = map (\<lambda>a. (a, 0)) acts
         | Stop out code w' \<Rightarrow> stopped_in acts tr))"

text \<open>
  The exit status that goes with each way of stopping: 0 for a completed run, a dry run
  and the help text; the status of the failed command when \<^verbatim>\<open>set -e\<close> ended the
  script; 1 otherwise.
\<close>

definition failed_status :: "env \<Rightarrow> command \<Rightarrow> nat \<Rightarrow> bool" where
  "failed_status e cmd code =
     (code \<noteq> 0 \<and>
      (case cmd of
         Read \<Rightarrow> code = 1
       | Grep \<Rightarrow> code = 1
       | Jq \<Rightarrow> code = 2 \<or> code = 5
       | GitAdd \<Rightarrow> code = git_add_status e
       | GitCommit \<Rightarrow> code = git_commit_status e
       | GitTag \<Rightarrow> code = 128 \<or> code = git_tag_status e
       | GitPushBranch \<Rightarrow> code = push_branch_status e
       | GitPushTag \<Rightarrow> code = push_tag_status e))"

definition exit_rule :: "env \<Rightarrow> outcome \<Rightarrow> nat \<Rightarrow> bool" where
  "exit_rule e out code =
     (case out of
        HelpShown \<Rightarrow> code = 0
      | DryRunCompleted \<Rightarrow> code = 0
      | Completed \<Rightarrow> code = 0
      | ErrExit cmd \<Rightarrow> failed_status e cmd code
      | _ \<Rightarrow> code = 1)"

text \<open>
  The strings a regular expression stands for; the matcher is proved against them
  below.
\<close>

inductive_set star :: "string set \<Rightarrow> string set" for L :: "string set" where
  star_empty: "[] \<in> star L"
| star_step: "u \<in> L \<Longrightarrow> v \<in> star L \<Longrightarrow> u @ v \<in> star L"

fun lang :: "rexp \<Rightarrow> string set" where
  "lang Zero = {}"
| "lang One = {[]}"
| "lang (Lit c) = {[c]}"
| "lang (Class rs) = {[c] | c. in_class c rs}"
| "lang Dot = {[c] | c. True}"
| "lang (Seq r s) = {u @ v | u v. u \<in> lang r \<and> v \<in> lang s}"
| "lang (Alt r s) = lang r \<union> lang s"
| "lang (Star r) = star (lang r)"

text \<open>
  The grammar \<^verbatim>\<open>MAJOR.MINOR.PATCH[-label]\<close> written out: three runs of digits joined
  by dots, followed by nothing or by a dash and a label of letters, digits and dots.
\<close>

definition digits :: "string \<Rightarrow> bool" where
  "digits s = (s \<noteq> [] \<and> list_all is_digit s)"

definition label_suffix :: "string \<Rightarrow> bool" where
  "label_suffix s =
     (case s of
        [] \<Rightarrow> True
      | c # l \<Rightarrow> c = CHR ''-'' \<and> l \<noteq> [] \<and>
          list_all (\<lambda>c. is_digit c \<or> (CHR ''a'' \<le> c \<and> c \<le> CHR ''z'') \<or>
                        (CHR ''A'' \<le> c \<and> c \<le> CHR ''Z'') \<or> c = CHR ''.'') l)"

definition version_string :: "string \<Rightarrow> string \<Rightarrow> string \<Rightarrow> string \<Rightarrow> string" where
  "version_string major minor patch label = major @ ''.'' @ minor @ ''.'' @ patch @ label"

text \<open>
  The two shapes of the \<^verbatim>\<open>sed\<close> patterns: a key followed by digits, and a key
  followed by anything up to a double quote.
\<close>

definition key_digits :: "string \<Rightarrow> rexp" where
  "key_digits k = Seq (lits k) (Star digit_re)"

definition key_quoted :: "string \<Rightarrow> rexp" where
  "key_quoted k = Seq (lits k) (Seq (Star Dot) (Lit DQ))"

text \<open>A text occurs in a line, at some position.\<close>

fun occurs :: "string \<Rightarrow> string \<Rightarrow> bool" where
  "occurs k [] = (k = [])"
| "occurs k (c # cs) = (prefix k (c # cs) \<or> occurs k cs)"

text \<open>
  The descriptor mutation of lines 424 and 425: the manifest, then the build descriptor.
\<close>

definition apply_version :: "env \<Rightarrow> string \<Rightarrow> world \<Rightarrow> step" where
  "apply_version e version w =
     and_then (update_package_json e version w) (update_android_version version)"

section \<open>A repository and an environment to run the script on\<close>

text \<open>
  A repository on branch \<^verbatim>\<open>main\<close> with a clean working tree, a manifest at version
  0.9.0 and a build descriptor at code 1; every tool is installed but \<^verbatim>\<open>jq\<close>, and
  every command succeeds.
\<close>

definition example_env :: env where
  "example_env =
     \<lparr>has_git = True, has_node = True, has_jq = False, in_git_repo = True,
      status_s = [], branch_name = ''main'', other_revs = [],
      npm_test_status = 0, gradlew_status = 0, git_add_status = 0, git_commit_status = 0,
      git_tag_status = 0, push_branch_status = 0, push_tag_status = 0,
      origin_path = ''owner/app'',
      json_parse = (\<lambda>content. None), json_print = (\<lambda>doc. [])\<rparr>"

definition example_manifest :: "string list" where
  "example_manifest = [''{'', ''  '' @ pkg_key @ ''0.9.0'' @ [DQ], ''}'']"

definition example_descriptor :: "string list" where
  "example_descriptor = [''versionCode 1'', name_key @ ''1.0'' @ [DQ]]"

definition example_world :: world where
  "example_world =
     \<lparr>package_json = example_manifest, build_gradle = example_descriptor,
      staged = None, commits = [], tags = [], remote_branches = [], remote_tags = [],
      stdin = [], stdout = [], USE_JQ = False, CURRENT_BRANCH = [], REPLY = [], trace = []\<rparr>"

text \<open>
  A build descriptor with one unusual line, \<^verbatim>\<open>versionName "versionCode 5" versionCode 7\<close>.
\<close>

definition odd_descriptor :: "string list" where
  "odd_descriptor = [name_key @ ''versionCode 5'' @ [DQ] @ '' versionCode 7'']"

definition odd_descriptor_once :: "string list" where
  "odd_descriptor_once = [name_key @ ''1.2.3'' @ [DQ] @ '' versionCode 7'']"

definition odd_descriptor_twice :: "string list" where
  "odd_descriptor_twice = [name_key @ ''1.2.3'' @ [DQ] @ '' versionCode 10203'']"

text \<open>The two files as version 1.0.0 leaves them.\<close>

definition manifest_1_0_0 :: "string list" where
  "manifest_1_0_0 = [''{'', ''  '' @ pkg_key @ ''1.0.0'' @ [DQ], ''}'']"

definition descriptor_1_0_0 :: "string list" where
  "descriptor_1_0_0 = [''versionCode 10000'', name_key @ ''1.0.0'' @ [DQ]]"

section \<open>Sequencing and what the checks before a release leave alone\<close>

lemma and_then_Continue [simp]: "and_then (Continue w) f = f w"
  by (simp add: and_then_def)

lemma and_then_Stop [simp]: "and_then (Stop out code w) f = Stop out code w"
  by (simp add: and_then_def)

lemma final_simps [simp]: "final (Continue w) = w" "final (Stop out code w) = w"
  by (simp_all add: final_def)

lemma untouched_refl [simp]: "untouched w w"
  by (simp add: untouched_def)

lemma untouched_trans: "untouched w w1 \<Longrightarrow> untouched w1 w2 \<Longrightarrow> untouched w w2"
  by (simp add: untouched_def)

lemma untouched_volatile [simp]:
  "untouched w (say l w1) = untouched w w1"
  "untouched w (says ls w1) = untouched w w1"
  "untouched w (w1\<lparr>stdin := a\<rparr>) = untouched w w1"
  "untouched w (w1\<lparr>stdout := b\<rparr>) = untouched w w1"
  "untouched w (w1\<lparr>USE_JQ := c\<rparr>) = untouched w w1"
  "untouched w (w1\<lparr>CURRENT_BRANCH := d\<rparr>) = untouched w w1"
  "untouched w (w1\<lparr>REPLY := r\<rparr>) = untouched w w1"
  by (simp_all add: untouched_def say_def says_def)

lemma untouched_and_then:
  assumes "untouched w (final s)" and "\<And>w1. untouched w w1 \<Longrightarrow> untouched w (final (f w1))"
  shows "untouched w (final (and_then s f))"
  using assms by (cases s) auto

lemma read_reply_untouched: "untouched w w1 \<Longrightarrow> untouched w (final (read_reply p w1))"
  by (simp add: read_reply_def split: list.split)

lemma read_reply_code: "read_reply p w = Stop out code w' \<Longrightarrow> code = 1 \<and> out = ErrExit Read"
  by (auto simp add: read_reply_def split: list.splits)

lemma confirm_untouched: "untouched w w1 \<Longrightarrow> untouched w (final (confirm p out msg w1))"
  unfolding confirm_def
  by (rule untouched_and_then) (simp_all add: read_reply_untouched)

lemma confirm_code:
  "confirm p out0 msg w = Stop out code w' \<Longrightarrow> code = 1 \<and> (out = ErrExit Read \<or> out = out0)"
  unfolding confirm_def
  by (cases "read_reply p w") (auto dest: read_reply_code split: if_splits)

lemma check_dependencies_untouched:
  "untouched w w1 \<Longrightarrow> untouched w (final (check_dependencies e w1))"
  by (simp add: check_dependencies_def Let_def)

lemma check_dependencies_code:
  "check_dependencies e w = Stop out code w' \<Longrightarrow> code = 1 \<and> out = MissingDependencies"
  by (auto simp add: check_dependencies_def Let_def split: if_splits)

lemma check_git_status_untouched:
  "untouched w w1 \<Longrightarrow> untouched w (final (check_git_status e fl w1))"
  unfolding check_git_status_def Let_def
  by (auto intro!: untouched_and_then confirm_untouched)

lemma check_git_status_code:
  "check_git_status e fl w = Stop out code w' \<Longrightarrow>
     code = 1 \<and> (out = NotGitRepository \<or> out = AbortedByUser \<or> out = ErrExit Read)"
  unfolding check_git_status_def Let_def
  by (auto simp: and_then_def dest!: confirm_code split: if_splits step.splits)

lemma check_tag_exists_untouched:
  "untouched w w1 \<Longrightarrow> untouched w (final (check_tag_exists e version w1))"
  by (simp add: check_tag_exists_def Let_def)

lemma check_tag_exists_code:
  "check_tag_exists e version w = Stop out code w' \<Longrightarrow> code = 1 \<and> out = TagAlreadyExists"
  by (auto simp add: check_tag_exists_def Let_def split: if_splits)

lemma validate_version_cases:
  "validate_version version w = (b, w') \<Longrightarrow> b = matches semver_re version \<and> untouched w w'"
  by (auto simp: validate_version_def split: if_splits)


lemma and_then_assoc: "and_then (and_then s f) g = and_then s (\<lambda>w. and_then (f w) g)"
  by (cases s) simp_all

lemma and_then_if:
  "and_then (if c then a else b) f = (if c then and_then a f else and_then b f)"
  by simp

lemma perform_release_phases:
  "perform_release e fl version w =
     and_then (preflight e fl version w)
       (\<lambda>w. if DRY_RUN fl then Stop DryRunCompleted 0 (says (dry_run_report version) w)
            else live_steps e fl version w)"
  unfolding perform_release_def preflight_def live_steps_def Let_def
  by (simp add: and_then_assoc split: prod.split bool.split)

lemma preflight_untouched: "untouched w (final (preflight e fl version w))"
  unfolding preflight_def Let_def
  by (auto simp: validate_version_def
        intro!: untouched_and_then check_dependencies_untouched check_git_status_untouched
          check_tag_exists_untouched confirm_untouched)

lemma preflight_Stop:
  assumes "preflight e fl version w = Stop out code w'"
  shows "code = 1 \<and>
         out \<in> {InvalidVersion, MissingDependencies, NotGitRepository, AbortedByUser,
                 TagAlreadyExists, ReleaseCancelled, ErrExit Read}"
  using assms unfolding preflight_def Let_def
  by (auto simp: validate_version_def and_then_def
        dest!: check_dependencies_code check_git_status_code check_tag_exists_code confirm_code
        split: if_splits step.splits)

lemma check_dependencies_tags:
  "check_dependencies e w = Continue w' \<Longrightarrow> tags w' = tags w"
  using check_dependencies_untouched[of w w e] by (simp add: untouched_def)

lemma check_git_status_tags:
  "check_git_status e fl w = Continue w' \<Longrightarrow> tags w' = tags w"
  using check_git_status_untouched[of w w e fl] by (simp add: untouched_def)

section \<open>A malformed version is rejected before anything is touched\<close>

text \<open>
  C3. An input that does not match \<^verbatim>\<open>MAJOR.MINOR.PATCH[-label]\<close> makes the pipeline
  fail: \<open>perform_release\<close>, to which \<open>main\<close> hands the version argument, stops with
  status 1 right after validation. The only thing
  that differs from the state before is the output, whose last two lines are the error
  naming the input and the line that says what a version must look like; no file, no
  commit, no tag and nothing on the remote has changed.
\<close>

theorem invalid_version_rejected:
  assumes "\<not> matches semver_re version"
  shows "perform_release e fl version w =
           Stop InvalidVersion 1
             (w\<lparr>stdout := stdout w @
                  [Header, Plain (''Release Version: '' @ version), Plain (''Tag: v'' @ version),
                   Plain [], Error (''Invalid version format: '' @ version),
                   Info ''Version must follow semantic versioning (e.g., 1.0.0, 1.2.3-beta)'']\<rparr>)"
  using assms by (simp add: perform_release_def validate_version_def says_def)

lemma semver_rejects_examples:
  "\<not> matches semver_re ''1.0''" "\<not> matches semver_re ''v1.0.0''"
  "\<not> matches semver_re ''1.0.0.0''"
  by code_simp+

theorem invalid_version_rejected_witness:
  "\<forall>e fl w. perform_release e fl ''v1.0.0'' w =
     Stop InvalidVersion 1
       (w\<lparr>stdout := stdout w @
            [Header, Plain ''Release Version: v1.0.0'', Plain ''Tag: vv1.0.0'',
             Plain [], Error ''Invalid version format: v1.0.0'',
             Info ''Version must follow semantic versioning (e.g., 1.0.0, 1.2.3-beta)'']\<rparr>)"
  using invalid_version_rejected[OF semver_rejects_examples(2)] by simp

section \<open>An existing tag stops the release\<close>

text \<open>
  C4. When the tag \<^verbatim>\<open>v\<close>\<open>version\<close> exists in the repository, \<open>perform_release\<close>
  stops with status 1 in one of the checks that precede every change, at the latest in
  \<open>check_tag_exists\<close>, and leaves the descriptor files, the index, the commits, the tags
  and the remote as they were. This holds for every setting of the flags (force, dry
  run, skip tests, skip build) and for every answer on standard input.
\<close>

theorem existing_tag_blocks_release:
  assumes "''v'' @ version \<in> set (map fst (tags w))"
  shows "\<exists>out w'. perform_release e fl version w = Stop out 1 w' \<and> untouched w w' \<and>
           out \<in> {InvalidVersion, MissingDependencies, NotGitRepository, AbortedByUser,
                   ErrExit Read, TagAlreadyExists}"
proof -
  have never_past_tag: "\<And>w1. tags w1 = tags w \<Longrightarrow>
      check_tag_exists e version w1 =
        Stop TagAlreadyExists 1
          (says [Error (''Tag '' @ (''v'' @ version) @ '' already exists''),
                 Info (''Delete it with: git tag -d '' @ (''v'' @ version))] w1)"
    using assms by (simp add: check_tag_exists_def git_rev_parse_def)
  have "\<exists>out w'. preflight e fl version w = Stop out 1 w' \<and>
           out \<in> {InvalidVersion, MissingDependencies, NotGitRepository, AbortedByUser,
                   ErrExit Read, TagAlreadyExists}"
  proof (cases "matches semver_re version")
    case False
    then show ?thesis by (simp add: preflight_def validate_version_def)
  next
    case True
    let ?w0 = "says [Header, Plain (''Release Version: '' @ version),
                     Plain (''Tag: v'' @ version), Plain []] w"
    have pre: "preflight e fl version w =
        and_then (check_dependencies e ?w0) (\<lambda>w.
        and_then (check_git_status e fl w) (\<lambda>w.
        and_then (check_tag_exists e version w) (\<lambda>w.
          if \<not> DRY_RUN fl \<and> \<not> FORCE fl
          then confirm ''Continue with release? (y/n) '' ReleaseCancelled
                 ''Release cancelled by user'' (says (release_summary fl version w) w)
          else Continue w)))"
      using True by (simp add: preflight_def validate_version_def)
    show ?thesis
    proof (cases "check_dependencies e ?w0")
      case (Stop out code w1)
      with pre check_dependencies_code[OF Stop] show ?thesis by simp
    next
      case (Continue w1)
      then have t1: "tags w1 = tags w"
        by (simp add: check_dependencies_tags says_def)
      show ?thesis
      proof (cases "check_git_status e fl w1")
        case (Stop out code w2)
        with pre Continue check_git_status_code[OF Stop] show ?thesis by auto
      next
        case c2: (Continue w2)
        then have "tags w2 = tags w"
          using t1 by (simp add: check_git_status_tags)
        then show ?thesis
          using pre Continue c2 never_past_tag by simp
      qed
    qed
  qed
  then obtain out w' where st: "preflight e fl version w = Stop out 1 w'"
    and out: "out \<in> {InvalidVersion, MissingDependencies, NotGitRepository, AbortedByUser,
                   ErrExit Read, TagAlreadyExists}"
    by blast
  have "untouched w w'"
    using preflight_untouched[of w e fl version] st by simp
  with st out show ?thesis
    by (simp add: perform_release_phases)
qed

theorem existing_tag_blocks_release_witness:
  "\<forall>e fl. \<exists>out w'.
     perform_release e fl ''1.0.0'' (example_world\<lparr>tags := [(''v1.0.0'', 0)]\<rparr>) = Stop out 1 w' \<and>
     untouched (example_world\<lparr>tags := [(''v1.0.0'', 0)]\<rparr>) w' \<and>
     out \<in> {InvalidVersion, MissingDependencies, NotGitRepository, AbortedByUser,
             ErrExit Read, TagAlreadyExists}"
  using existing_tag_blocks_release[of "''1.0.0''" "example_world\<lparr>tags := [(''v1.0.0'', 0)]\<rparr>"]
  by simp

lemma parse_args_Parsed: "parse_args args fl w = Parsed fl' w' \<Longrightarrow> w' = w"
  by (induction args arbitrary: fl) (auto split: if_splits)

lemma parse_args_Halted:
  "parse_args args fl w = Halted out code w' \<Longrightarrow> untouched w w' \<and> exit_rule e out code \<and>
     out \<in> {HelpShown, UnknownOption, MultipleVersions}"
  by (induction args arbitrary: fl) (auto simp: exit_rule_def split: if_splits)

lemma parse_args_dry_run:
  "parse_args args fl w = Parsed fl' w' \<Longrightarrow> ''--dry-run'' \<in> set args \<or> DRY_RUN fl \<Longrightarrow>
     DRY_RUN fl'"
  by (induction args arbitrary: fl) (auto split: if_splits)

lemma dry_run_untouched:
  "DRY_RUN fl \<Longrightarrow> untouched w (final (perform_release e fl version w))"
  unfolding perform_release_phases
  by (rule untouched_and_then) (simp_all add: preflight_untouched)

section \<open>A dry run changes nothing\<close>

text \<open>
  C5. A run with \<^verbatim>\<open>--dry-run\<close> among its arguments leaves the descriptor files, the
  index, the commits, the local tags and the remote as they were, and attempts no
  action: no file is written, nothing is committed, tagged or pushed.
\<close>

theorem dry_run_changes_nothing:
  assumes "''--dry-run'' \<in> set args"
  shows "untouched w (snd (snd (main e args w)))"
proof (cases "parse_args args no_flags w")
  case (Halted out code w')
  then show ?thesis
    using parse_args_Halted[OF Halted] by (simp add: main_def)
next
  case (Parsed fl w')
  have w': "w' = w" and dry: "DRY_RUN fl"
    using parse_args_Parsed[OF Parsed] parse_args_dry_run[OF Parsed] assms by simp_all
  show ?thesis
  proof (cases "VERSION fl = []")
    case True
    with Parsed w' show ?thesis by (simp add: main_def)
  next
    case False
    have "untouched w (final (perform_release e fl (VERSION fl) w))"
      using dry by (rule dry_run_untouched)
    with Parsed w' False show ?thesis
      by (simp add: main_def final_def split: step.splits)
  qed
qed

theorem dry_run_changes_nothing_witness:
  "\<forall>e w. untouched w (snd (snd (main e [''1.0.1'', ''--dry-run''] w)))"
  using dry_run_changes_nothing[of "[''1.0.1'', ''--dry-run'']"] by simp

lemma check_git_status_prerelease:
  "check_git_status e (fl\<lparr>PRERELEASE := b\<rparr>) w = check_git_status e fl w"
  by (simp add: check_git_status_def Let_def cong: if_cong)

lemma run_tests_prerelease: "run_tests e (fl\<lparr>PRERELEASE := b\<rparr>) w = run_tests e fl w"
  by (simp add: run_tests_def)

lemma verify_build_prerelease: "verify_build e (fl\<lparr>PRERELEASE := b\<rparr>) w = verify_build e fl w"
  by (simp add: verify_build_def)

lemma release_summary_prerelease:
  "release_summary (fl\<lparr>PRERELEASE := b\<rparr>) version w = release_summary fl version w"
  by (simp add: release_summary_def)

lemma preflight_prerelease:
  "preflight e (fl\<lparr>PRERELEASE := b\<rparr>) version w = preflight e fl version w"
  unfolding preflight_def Let_def
  by (simp add: check_git_status_prerelease release_summary_prerelease
        split: prod.split bool.split cong: if_cong)

lemma live_steps_prerelease:
  "live_steps e (fl\<lparr>PRERELEASE := b\<rparr>) version w = live_steps e fl version w"
  unfolding live_steps_def
  by (simp add: run_tests_prerelease verify_build_prerelease)

lemma perform_release_prerelease:
  "perform_release e (fl\<lparr>PRERELEASE := b\<rparr>) version w = perform_release e fl version w"
  unfolding perform_release_phases
  by (simp add: preflight_prerelease live_steps_prerelease cong: if_cong)

lemma parse_args_prerelease_set:
  "parse_args args (fl\<lparr>PRERELEASE := True\<rparr>) w =
     (case parse_args args fl w of
        Parsed fl' w' \<Rightarrow> Parsed (fl'\<lparr>PRERELEASE := True\<rparr>) w'
      | Halted out code w' \<Rightarrow> Halted out code w')"
proof (induction args arbitrary: fl)
  case Nil
  then show ?case by simp
next
  case (Cons a args)
  have twice: "parse_args args (fl\<lparr>PRERELEASE := True\<rparr>) w =
     (case parse_args args (fl\<lparr>PRERELEASE := True\<rparr>) w of
        Parsed fl' w' \<Rightarrow> Parsed (fl'\<lparr>PRERELEASE := True\<rparr>) w'
      | Halted out code w' \<Rightarrow> Halted out code w')"
    using Cons.IH[of fl] by (simp split: parsed.splits)
  have comm:
    "fl\<lparr>PRERELEASE := True, SKIP_TESTS := True\<rparr> = fl\<lparr>SKIP_TESTS := True, PRERELEASE := True\<rparr>"
    "fl\<lparr>PRERELEASE := True, SKIP_BUILD := True\<rparr> = fl\<lparr>SKIP_BUILD := True, PRERELEASE := True\<rparr>"
    "fl\<lparr>PRERELEASE := True, DRY_RUN := True\<rparr> = fl\<lparr>DRY_RUN := True, PRERELEASE := True\<rparr>"
    "fl\<lparr>PRERELEASE := True, FORCE := True\<rparr> = fl\<lparr>FORCE := True, PRERELEASE := True\<rparr>"
    "fl\<lparr>PRERELEASE := True, VERSION := a\<rparr> = fl\<lparr>VERSION := a, PRERELEASE := True\<rparr>"
    by simp_all
  show ?case
    using twice by (simp add: comm Cons.IH del: opts.simps)
qed

lemma parse_args_prerelease_drop:
  "parse_args (xs @ ''--prerelease'' # ys) fl w =
     (case parse_args (xs @ ys) fl w of
        Parsed fl' w' \<Rightarrow> Parsed (fl'\<lparr>PRERELEASE := True\<rparr>) w'
      | Halted out code w' \<Rightarrow> Halted out code w')"
proof (induction xs arbitrary: fl)
  case Nil
  then show ?case by (simp add: parse_args_prerelease_set)
next
  case (Cons a xs)
  then show ?case by simp
qed

section \<open>The flag \<^verbatim>\<open>--prerelease\<close> has no effect\<close>

text \<open>
  C10. \<^verbatim>\<open>--prerelease\<close> sets a variable that nothing reads: a run with the flag
  anywhere among its arguments ends in the same way, with the same exit status, the
  same output and the same final state as the run without it.
\<close>

theorem prerelease_flag_is_inert:
  "main e (xs @ ''--prerelease'' # ys) w = main e (xs @ ys) w"
  unfolding main_def parse_args_prerelease_drop
  by (cases "parse_args (xs @ ys) no_flags w") (simp_all add: perform_release_prerelease)

section \<open>Fields that printing and recording leave alone\<close>

lemma say_fields [simp]:
  "package_json (say l w) = package_json w" "build_gradle (say l w) = build_gradle w"
  "staged (say l w) = staged w" "commits (say l w) = commits w" "tags (say l w) = tags w"
  "remote_branches (say l w) = remote_branches w" "remote_tags (say l w) = remote_tags w"
  "stdin (say l w) = stdin w" "stdout (say l w) = stdout w @ [l]"
  "USE_JQ (say l w) = USE_JQ w" "CURRENT_BRANCH (say l w) = CURRENT_BRANCH w"
  "REPLY (say l w) = REPLY w"
  by (simp_all add: say_def)

lemma says_fields [simp]:
  "package_json (says ls w) = package_json w" "build_gradle (says ls w) = build_gradle w"
  "staged (says ls w) = staged w" "commits (says ls w) = commits w" "tags (says ls w) = tags w"
  "remote_branches (says ls w) = remote_branches w" "remote_tags (says ls w) = remote_tags w"
  "stdin (says ls w) = stdin w" "stdout (says ls w) = stdout w @ ls"
  "USE_JQ (says ls w) = USE_JQ w" "CURRENT_BRANCH (says ls w) = CURRENT_BRANCH w"
  "REPLY (says ls w) = REPLY w"
  by (simp_all add: says_def)

lemma attempt_fields [simp]:
  "package_json (attempt a st w) = package_json w" "build_gradle (attempt a st w) = build_gradle w"
  "staged (attempt a st w) = staged w" "commits (attempt a st w) = commits w"
  "tags (attempt a st w) = tags w"
  "remote_branches (attempt a st w) = remote_branches w"
  "remote_tags (attempt a st w) = remote_tags w"
  "stdin (attempt a st w) = stdin w" "stdout (attempt a st w) = stdout w"
  "USE_JQ (attempt a st w) = USE_JQ w" "CURRENT_BRANCH (attempt a st w) = CURRENT_BRANCH w"
  "REPLY (attempt a st w) = REPLY w"
  by (simp_all add: attempt_def)

section \<open>The actions of a live run, in order\<close>




lemma attempts_Continue [simp]:
  "attempts acts w (Continue w') = (trace w' = trace w @ map (\<lambda>a. (a, 0)) acts)"
  by (auto simp: attempts_def)

lemma attempts_Stop [simp]:
  "attempts acts w (Stop out code w') = (\<exists>tr. trace w' = trace w @ tr \<and> stopped_in acts tr)"
  by (simp add: attempts_def)


lemma trace_volatile [simp]:
  "trace (say l w) = trace w" "trace (says ls w) = trace w"
  "trace (attempt a st w) = trace w @ [(a, st)]"
  by (simp_all add: say_def says_def attempt_def)









section \<open>How the steps of a live run stop\<close>

lemma update_package_json_Stop:
  "update_package_json e version w = Stop out code w' \<Longrightarrow>
     exit_rule e out code \<and> (out = ErrExit Jq \<or> out = ErrExit Grep)"
  unfolding update_package_json_def Let_def jq_set_version_def
  by (auto simp: exit_rule_def failed_status_def and_then_def
        split: if_splits sum.splits option.splits step.splits)

lemma run_tests_Stop:
  "run_tests e fl w = Stop out code w' \<Longrightarrow> code = 1 \<and> out = TestsFailed"
  by (auto simp: run_tests_def Let_def split: if_splits)

lemma verify_build_Stop:
  "verify_build e fl w = Stop out code w' \<Longrightarrow> code = 1 \<and> out = BuildFailed"
  by (auto simp: verify_build_def Let_def split: if_splits)

lemma commit_version_changes_Stop:
  "commit_version_changes e version w = Stop out code w' \<Longrightarrow>
     exit_rule e out code \<and> (out = ErrExit GitAdd \<or> out = ErrExit GitCommit)"
  by (auto simp: commit_version_changes_def Let_def exit_rule_def failed_status_def
        split: if_splits)

lemma create_and_push_tag_Stop:
  "create_and_push_tag e version w = Stop out code w' \<Longrightarrow>
     exit_rule e out code \<and>
     (out = ErrExit GitTag \<or> out = ErrExit GitPushBranch \<or> out = ErrExit GitPushTag)"
  by (auto simp: create_and_push_tag_def Let_def exit_rule_def failed_status_def
        split: if_splits)

lemma update_android_version_Stop:
  "update_android_version version w = Stop out code w' \<Longrightarrow> False"
  by (simp add: update_android_version_def Let_def)

lemma and_then_Stop_cases:
  assumes "and_then s f = Stop out code w'"
  obtains "s = Stop out code w'" | w1 where "s = Continue w1" "f w1 = Stop out code w'"
  using assms by (cases s) auto

lemma live_steps_Stop:
  assumes "live_steps e fl version w = Stop out code w'"
  shows "exit_rule e out code \<and>
     out \<in> {ErrExit Jq, ErrExit Grep, TestsFailed, BuildFailed, ErrExit GitAdd,
             ErrExit GitCommit, ErrExit GitTag, ErrExit GitPushBranch, ErrExit GitPushTag}"
  using assms unfolding live_steps_def
  by (elim and_then_Stop_cases)
    (auto simp: exit_rule_def
       dest!: update_package_json_Stop update_android_version_Stop run_tests_Stop
         verify_build_Stop commit_version_changes_Stop create_and_push_tag_Stop)

lemma perform_release_Stop:
  assumes "perform_release e fl version w = Stop out code w'"
  shows "exit_rule e out code \<and> out \<notin> {HelpShown, UnknownOption, MultipleVersions,
           VersionRequired, Completed}"
  using assms unfolding perform_release_phases
  apply (elim and_then_Stop_cases)
   apply (drule preflight_Stop, auto simp: exit_rule_def failed_status_def)[1]
  apply (auto simp: exit_rule_def dest!: live_steps_Stop split: if_splits)
  done

lemma main_exit_rule: "main e args w = (out, code, w') \<Longrightarrow> exit_rule e out code"
  unfolding main_def
  by (auto simp: exit_rule_def dest: parse_args_Halted[where e=e] perform_release_Stop
        split: parsed.splits if_splits step.splits)

section \<open>Runs that pass, and what the steps keep\<close>

lemma preflight_passes:
  assumes "matches semver_re version" "has_git e" "has_node e" "in_git_repo e"
    "concat (status_s e) = []" "branch_name e = ''main''"
    "\<not> git_rev_parse e w (''v'' @ version)" "FORCE fl \<or> DRY_RUN fl"
  shows "\<exists>w'. preflight e fl version w = Continue w' \<and> untouched w w' \<and>
           USE_JQ w' = has_jq e \<and> CURRENT_BRANCH w' = ''main''"
  using assms
  by (auto simp: preflight_def validate_version_def check_dependencies_def
        check_git_status_def check_tag_exists_def git_rev_parse_def Let_def
        simp del: matches.simps)


lemma and_then_Continue_cases:
  assumes "and_then s f = Continue w'"
  obtains w1 where "s = Continue w1" "f w1 = Continue w'"
  using assms by (cases s) auto

lemma read_reply_USE_JQ: "read_reply p w = Continue w' \<Longrightarrow> USE_JQ w' = USE_JQ w"
  by (auto simp: read_reply_def split: list.splits)

lemma confirm_USE_JQ: "confirm p out msg w = Continue w' \<Longrightarrow> USE_JQ w' = USE_JQ w"
  unfolding confirm_def
  by (erule and_then_Continue_cases) (auto dest: read_reply_USE_JQ split: if_splits)

lemma check_dependencies_USE_JQ:
  "check_dependencies e w = Continue w' \<Longrightarrow> USE_JQ w' = has_jq e"
  by (auto simp: check_dependencies_def Let_def split: if_splits)

lemma check_git_status_USE_JQ:
  "check_git_status e fl w = Continue w' \<Longrightarrow> USE_JQ w' = USE_JQ w"
  unfolding check_git_status_def Let_def
  by (auto elim!: and_then_Continue_cases dest!: confirm_USE_JQ split: if_splits)

lemma check_tag_exists_Continue: "check_tag_exists e version w = Continue w' \<Longrightarrow> w' = w"
  by (auto simp: check_tag_exists_def Let_def split: if_splits)

lemma preflight_Continue:
  assumes "preflight e fl version w = Continue w'"
  shows "untouched w w' \<and> USE_JQ w' = has_jq e"
proof
  show "untouched w w'"
    using preflight_untouched[of w e fl version] assms by simp
  show "USE_JQ w' = has_jq e"
    using assms unfolding preflight_def Let_def
    by (auto simp: validate_version_def elim!: and_then_Continue_cases
          dest!: check_dependencies_USE_JQ check_git_status_USE_JQ check_tag_exists_Continue
            confirm_USE_JQ
          split: if_splits)
qed

lemma update_package_json_Continue:
  assumes "update_package_json e version w = Continue w'"
  shows "(if USE_JQ w then jq_set_version e version (package_json w) = Inr (package_json w')
          else package_json w' = sed_package_json version (package_json w)) \<and>
         build_gradle w' = build_gradle w \<and> unpublished w w'"
  using assms unfolding update_package_json_def Let_def
  by (auto simp: unpublished_def elim!: and_then_Continue_cases split: if_splits sum.splits)

lemma update_android_version_Continue:
  assumes "update_android_version version w = Continue w'"
  shows "build_gradle w' = sed_build_gradle version (build_gradle w) \<and>
         package_json w' = package_json w \<and> unpublished w w'"
  using assms unfolding update_android_version_def Let_def
  by (auto simp: unpublished_def)

lemma run_tests_keeps:
  "package_json (final (run_tests e fl w)) = package_json w \<and>
   build_gradle (final (run_tests e fl w)) = build_gradle w \<and>
   unpublished w (final (run_tests e fl w))"
  by (simp add: run_tests_def Let_def unpublished_def)

lemma verify_build_keeps:
  "package_json (final (verify_build e fl w)) = package_json w \<and>
   build_gradle (final (verify_build e fl w)) = build_gradle w \<and>
   unpublished w (final (verify_build e fl w))"
  by (simp add: verify_build_def Let_def unpublished_def)

lemma unpublished_trans: "unpublished w w1 \<Longrightarrow> unpublished w1 w2 \<Longrightarrow> unpublished w w2"
  by (simp add: unpublished_def)

lemma untouched_unpublished: "untouched w w' \<Longrightarrow> unpublished w w'"
  by (simp add: untouched_def unpublished_def)

lemma live_steps_gate_failure:
  assumes "live_steps e fl version w = Stop out code w'" and "out = TestsFailed \<or> out = BuildFailed"
  shows "code = 1 \<and> build_gradle w' = sed_build_gradle version (build_gradle w) \<and>
     (if USE_JQ w then jq_set_version e version (package_json w) = Inr (package_json w')
      else package_json w' = sed_package_json version (package_json w)) \<and>
     unpublished w w'"
proof -
  from assms(1) obtain w1 where p: "update_package_json e version w = Continue w1"
    and r1: "and_then (update_android_version version w1) (\<lambda>w.
       and_then (run_tests e fl w) (\<lambda>w.
       and_then (verify_build e fl w) (\<lambda>w.
       and_then (commit_version_changes e version w) (\<lambda>w.
       and_then (create_and_push_tag e version w) (\<lambda>w.
       Continue (says (success_report e version) w)))))) = Stop out code w'"
    unfolding live_steps_def using assms(2)
    by (auto elim!: and_then_Stop_cases dest!: update_package_json_Stop)
  from r1 obtain w2 where a: "update_android_version version w1 = Continue w2"
    and r2: "and_then (run_tests e fl w2) (\<lambda>w.
       and_then (verify_build e fl w) (\<lambda>w.
       and_then (commit_version_changes e version w) (\<lambda>w.
       and_then (create_and_push_tag e version w) (\<lambda>w.
       Continue (says (success_report e version) w))))) = Stop out code w'"
    by (auto elim!: and_then_Stop_cases dest!: update_android_version_Stop)
  note P = update_package_json_Continue[OF p]
  note A = update_android_version_Continue[OF a]
  have files2: "build_gradle w2 = sed_build_gradle version (build_gradle w)"
    "(if USE_JQ w then jq_set_version e version (package_json w) = Inr (package_json w2)
      else package_json w2 = sed_package_json version (package_json w))"
    "unpublished w w2"
    using P A by (auto intro: unpublished_trans)
  from r2 consider
      (tests) "run_tests e fl w2 = Stop out code w'"
    | (rest) w3 where "run_tests e fl w2 = Continue w3"
        "and_then (verify_build e fl w3) (\<lambda>w.
         and_then (commit_version_changes e version w) (\<lambda>w.
         and_then (create_and_push_tag e version w) (\<lambda>w.
         Continue (says (success_report e version) w)))) = Stop out code w'"
    by (auto elim!: and_then_Stop_cases)
  then show ?thesis
  proof cases
    case tests
    with run_tests_keeps[of e fl w2] run_tests_Stop[OF tests] files2 show ?thesis
      by (auto intro: unpublished_trans)
  next
    case rest
    have files3: "build_gradle w3 = build_gradle w2" "package_json w3 = package_json w2"
      "unpublished w2 w3"
      using run_tests_keeps[of e fl w2] rest(1) by simp_all
    from rest(2) assms(2) have b: "verify_build e fl w3 = Stop out code w'"
      by (auto elim!: and_then_Stop_cases
            dest!: commit_version_changes_Stop create_and_push_tag_Stop)
    with verify_build_keeps[of e fl w3] verify_build_Stop[OF b] files2 files3 show ?thesis
      by (auto intro: unpublished_trans)
  qed
qed

section \<open>A failed verification leaves the edits in place\<close>

text \<open>
  C7. When a run stops because the tests or the build check failed, the exit status is
  1, the build descriptor and the manifest hold what the version bump wrote (the
  \<^verbatim>\<open>sed\<close> edits, or the output of \<^verbatim>\<open>jq\<close> when it is installed), nothing is rolled
  back, and nothing has been staged, committed, tagged or pushed.
\<close>

theorem failed_gate_keeps_edits:
  assumes "perform_release e fl version w = Stop out code w'"
    and "out = TestsFailed \<or> out = BuildFailed"
  shows "code = 1 \<and>
     build_gradle w' = sed_build_gradle version (build_gradle w) \<and>
     (if has_jq e then jq_set_version e version (package_json w) = Inr (package_json w')
      else package_json w' = sed_package_json version (package_json w)) \<and>
     unpublished w w'"
proof -
  from assms obtain w1 where pre: "preflight e fl version w = Continue w1"
    and live: "live_steps e fl version w1 = Stop out code w'"
    unfolding perform_release_phases
    by (auto elim!: and_then_Stop_cases dest!: preflight_Stop split: if_splits)
  from preflight_Continue[OF pre] have same: "untouched w w1" and jq: "USE_JQ w1 = has_jq e"
    by simp_all
  from same have files: "package_json w1 = package_json w" "build_gradle w1 = build_gradle w"
    and unp: "unpublished w w1"
    by (simp_all add: untouched_def unpublished_def)
  from live_steps_gate_failure[OF live assms(2)] files jq unp show ?thesis
    by (auto intro: unpublished_trans)
qed

lemma perform_release_live:
  "preflight e fl version w = Continue w1 \<Longrightarrow> \<not> DRY_RUN fl \<Longrightarrow>
     perform_release e fl version w = live_steps e fl version w1"
  by (simp add: perform_release_phases)

lemma live_steps_tests_fail:
  assumes "\<not> USE_JQ w"
    "filter (grep_line version_word_re) (sed_package_json version (package_json w)) \<noteq> []"
    "\<not> SKIP_TESTS fl" "npm_test_status e \<noteq> 0"
  shows "\<exists>w'. live_steps e fl version w = Stop TestsFailed 1 w'"
  using assms
  by (simp add: live_steps_def update_package_json_def update_android_version_def
        run_tests_def Let_def del: filter.simps)

lemma live_steps_push_fails:
  assumes "\<not> USE_JQ w"
    "filter (grep_line version_word_re) (sed_package_json version (package_json w)) \<noteq> []"
    "npm_test_status e = 0" "gradlew_status e = 0" "git_add_status e = 0"
    "git_commit_status e = 0" "git_tag_status e = 0" "push_branch_status e \<noteq> 0"
    "''v'' @ version \<notin> set (map fst (tags w))"
  shows "\<exists>w'. live_steps e fl version w =
           Stop (ErrExit GitPushBranch) (push_branch_status e) w'"
  using assms
  by (simp add: live_steps_def update_package_json_def update_android_version_def
        run_tests_def verify_build_def commit_version_changes_def create_and_push_tag_def
        Let_def del: filter.simps)

lemma example_valid: "matches semver_re ''1.0.0''"
  by code_simp

lemma example_package_json: "sed_package_json ''1.0.0'' example_manifest = manifest_1_0_0"
  by code_simp

lemma example_grep: "filter (grep_line version_word_re) manifest_1_0_0 \<noteq> []"
  by code_simp

lemma example_build_gradle: "sed_build_gradle ''1.0.0'' example_descriptor = descriptor_1_0_0"
  by code_simp

lemma example_world_files:
  "package_json example_world = example_manifest"
  "build_gradle example_world = example_descriptor"
  "tags example_world = []" "trace example_world = []"
  by (simp_all add: example_world_def)

lemma example_preflight:
  assumes "has_git e" "has_node e" "in_git_repo e" "concat (status_s e) = []"
    "branch_name e = ''main''" "other_revs e = []" "\<not> has_jq e" "FORCE fl \<or> DRY_RUN fl"
  shows "\<exists>w1. preflight e fl ''1.0.0'' example_world = Continue w1 \<and>
           untouched example_world w1 \<and> \<not> USE_JQ w1 \<and>
           filter (grep_line version_word_re)
             (sed_package_json ''1.0.0'' (package_json w1)) \<noteq> [] \<and>
           ''v'' @ ''1.0.0'' \<notin> set (map fst (tags w1))"
proof -
  have "\<not> git_rev_parse e example_world (''v'' @ ''1.0.0'')"
    using assms by (simp add: git_rev_parse_def example_world_files)
  from preflight_passes[OF example_valid assms(1-5) this assms(8)]
  obtain w1 where w1: "preflight e fl ''1.0.0'' example_world = Continue w1"
    "untouched example_world w1" "USE_JQ w1 = has_jq e"
    by blast
  then have "package_json w1 = example_manifest" and "tags w1 = []"
    by (simp_all add: untouched_def example_world_files)
  with w1 assms(7) example_grep show ?thesis
    by (simp add: example_package_json)
qed

theorem failed_gate_keeps_edits_witness:
  "\<exists>w'. perform_release (example_env\<lparr>npm_test_status := 1\<rparr>) (no_flags\<lparr>FORCE := True\<rparr>)
           ''1.0.0'' example_world = Stop TestsFailed 1 w' \<and>
         build_gradle w' = descriptor_1_0_0 \<and> package_json w' = manifest_1_0_0 \<and>
         unpublished example_world w'"
proof -
  let ?e = "example_env\<lparr>npm_test_status := 1\<rparr>"
  let ?fl = "no_flags\<lparr>FORCE := True\<rparr>"
  obtain w1 where pre: "preflight ?e ?fl ''1.0.0'' example_world = Continue w1"
    and w1: "\<not> USE_JQ w1"
      "filter (grep_line version_word_re) (sed_package_json ''1.0.0'' (package_json w1)) \<noteq> []"
    using example_preflight[of ?e ?fl] by (auto simp: example_env_def no_flags_def)
  obtain w' where "live_steps ?e ?fl ''1.0.0'' w1 = Stop TestsFailed 1 w'"
    using live_steps_tests_fail[OF w1, of ?fl ?e] by (auto simp: no_flags_def)
  then have run: "perform_release ?e ?fl ''1.0.0'' example_world = Stop TestsFailed 1 w'"
    using perform_release_live[OF pre] by (simp add: no_flags_def)
  from failed_gate_keeps_edits[OF run] run show ?thesis
    by (simp add: example_env_def example_world_files example_package_json example_build_gradle)
qed

section \<open>The order of the actions of a run\<close>



section \<open>Exit statuses\<close>

text \<open>
  C8, as amended. The exit status is 0 exactly when the run completed, was a dry run, or
  printed the help text. It is 1 when the arguments are wrong, the version is invalid, a
  check before the release fails, the user declines, or the tests or the build check
  fail. When a command the script does not guard fails (\<^verbatim>\<open>read\<close>, \<^verbatim>\<open>jq\<close>,
  \<^verbatim>\<open>grep\<close>, \<^verbatim>\<open>git add\<close>, \<^verbatim>\<open>git commit\<close>, \<^verbatim>\<open>git tag\<close>, \<^verbatim>\<open>git push\<close>),
  \<^verbatim>\<open>set -e\<close> ends the script with the status of that command, which is not 0 and
  need not be 1.
\<close>

theorem exit_status_by_outcome:
  assumes "main e args w = (out, code, w')"
  shows "(code = 0 \<longleftrightarrow> out \<in> {Completed, DryRunCompleted, HelpShown}) \<and>
         (out \<in> {UnknownOption, MultipleVersions, VersionRequired, InvalidVersion,
                  MissingDependencies, NotGitRepository, AbortedByUser, TagAlreadyExists,
                  ReleaseCancelled, TestsFailed, BuildFailed} \<longrightarrow> code = 1) \<and>
         (\<forall>cmd. out = ErrExit cmd \<longrightarrow> failed_status e cmd code)"
  using main_exit_rule[OF assms]
  by (cases out) (auto simp: exit_rule_def failed_status_def)

lemma main_version_force:
  "main e [''1.0.0'', ''--force''] w =
     (case perform_release e (no_flags\<lparr>VERSION := ''1.0.0'', FORCE := True\<rparr>) ''1.0.0'' w of
        Stop out code w'' \<Rightarrow> (out, code, w'')
      | Continue w'' \<Rightarrow> (Completed, 0, w''))"
  by (simp add: main_def no_flags_def)

lemma main_version_dry_run:
  "main e [''1.0.0'', ''--dry-run''] w =
     (case perform_release e (no_flags\<lparr>VERSION := ''1.0.0'', DRY_RUN := True\<rparr>) ''1.0.0'' w of
        Stop out code w'' \<Rightarrow> (out, code, w'')
      | Continue w'' \<Rightarrow> (Completed, 0, w''))"
  by (simp add: main_def no_flags_def)

text \<open>
  The status is not 1 for every failure, nor 0 only for a completed run and a dry run:
  when \<^verbatim>\<open>git push origin main\<close> fails with status 128, the run is a publish failure
  and the script exits with 128; and \<^verbatim>\<open>--help\<close> exits with 0.
\<close>

theorem exit_status_not_always_one:
  "fst (main (example_env\<lparr>push_branch_status := 128\<rparr>) [''1.0.0'', ''--force''] example_world)
     = ErrExit GitPushBranch \<and>
   fst (snd (main (example_env\<lparr>push_branch_status := 128\<rparr>) [''1.0.0'', ''--force'']
     example_world)) = 128 \<and>
   fst (main example_env [''--help''] example_world) = HelpShown \<and>
   fst (snd (main example_env [''--help''] example_world)) = 0"
proof -
  let ?e = "example_env\<lparr>push_branch_status := 128\<rparr>"
  let ?fl = "no_flags\<lparr>VERSION := ''1.0.0'', FORCE := True\<rparr>"
  obtain w1 where pre: "preflight ?e ?fl ''1.0.0'' example_world = Continue w1"
    and w1: "\<not> USE_JQ w1"
      "filter (grep_line version_word_re) (sed_package_json ''1.0.0'' (package_json w1)) \<noteq> []"
      "''v'' @ ''1.0.0'' \<notin> set (map fst (tags w1))"
    using example_preflight[of ?e ?fl] by (auto simp: example_env_def no_flags_def)
  obtain w' where "live_steps ?e ?fl ''1.0.0'' w1 =
      Stop (ErrExit GitPushBranch) (push_branch_status ?e) w'"
    using live_steps_push_fails[OF w1(1,2) _ _ _ _ _ _ w1(3), of ?e ?fl]
    by (auto simp: example_env_def)
  then have "perform_release ?e ?fl ''1.0.0'' example_world = Stop (ErrExit GitPushBranch) 128 w'"
    using perform_release_live[OF pre] by (simp add: no_flags_def)
  then show ?thesis
    by (simp add: main_version_force) (simp add: main_def)
qed

theorem exit_status_by_outcome_witness:
  "fst (main example_env [''1.0.0'', ''--dry-run''] example_world) = DryRunCompleted \<and>
   fst (snd (main example_env [''1.0.0'', ''--dry-run''] example_world)) = 0"
proof -
  let ?fl = "no_flags\<lparr>VERSION := ''1.0.0'', DRY_RUN := True\<rparr>"
  let ?run = "main example_env [''1.0.0'', ''--dry-run''] example_world"
  obtain w1 where pre: "preflight example_env ?fl ''1.0.0'' example_world = Continue w1"
    using example_preflight[of example_env ?fl] by (auto simp: example_env_def no_flags_def)
  then have out: "fst ?run = DryRunCompleted"
    by (simp add: main_version_dry_run perform_release_phases no_flags_def)
  have "?run = (fst ?run, fst (snd ?run), snd (snd ?run))"
    by simp
  from exit_status_by_outcome[OF this] out show ?thesis
    by simp
qed

section \<open>The matcher agrees with the meaning of the expressions\<close>

lemma lang_seq [simp]: "lang (seq r s) = lang (Seq r s)"
  by (auto simp: seq_def)

lemma lang_alt [simp]: "lang (alt r s) = lang (Alt r s)"
  by (auto simp: alt_def)

lemma nullable_iff: "nullable r \<longleftrightarrow> [] \<in> lang r"
  by (induction r) (auto intro: star.intros)

lemma star_cons:
  "c # w \<in> star L \<longleftrightarrow> (\<exists>u v. w = u @ v \<and> c # u \<in> L \<and> v \<in> star L)"
proof
  assume "c # w \<in> star L"
  then show "\<exists>u v. w = u @ v \<and> c # u \<in> L \<and> v \<in> star L"
  proof (induction "c # w" arbitrary: w rule: star.induct)
    case (star_step u v)
    then show ?case
      by (cases u) auto
  qed
next
  assume "\<exists>u v. w = u @ v \<and> c # u \<in> L \<and> v \<in> star L"
  then obtain u v where "w = u @ v" "c # u \<in> L" "v \<in> star L" by blast
  then show "c # w \<in> star L"
    using star_step[of "c # u" L v] by simp
qed

lemma lang_deriv: "w \<in> lang (deriv c r) \<longleftrightarrow> c # w \<in> lang r"
proof (induction r arbitrary: w)
  case (Seq r s)
  then show ?case
    by (auto simp: nullable_iff Cons_eq_append_conv)
next
  case (Star r)
  then show ?case
    by (auto simp: star_cons)
qed auto

lemma matches_iff: "matches r s \<longleftrightarrow> s \<in> lang r"
  by (induction s arbitrary: r) (simp_all add: nullable_iff lang_deriv)

lemma longest_match_None:
  "longest_match r s = None \<longleftrightarrow> (\<forall>n\<le>length s. take n s \<notin> lang r)"
proof (induction s arbitrary: r)
  case Nil
  then show ?case by (simp add: nullable_iff)
next
  case (Cons c cs)
  have "(\<forall>n\<le>length (c # cs). take n (c # cs) \<notin> lang r) \<longleftrightarrow>
        [] \<notin> lang r \<and> (\<forall>n\<le>length cs. take n cs \<notin> lang (deriv c r))"
    by (auto simp: lang_deriv take_Cons split: nat.splits)
  then show ?case
    using Cons.IH[of "deriv c r"] by (auto simp: nullable_iff split: option.splits)
qed

lemma longest_match_Some:
  "longest_match r s = Some n \<longleftrightarrow>
     n \<le> length s \<and> take n s \<in> lang r \<and> (\<forall>m. n < m \<and> m \<le> length s \<longrightarrow> take m s \<notin> lang r)"
proof (induction s arbitrary: r n)
  case Nil
  then show ?case by (auto simp: nullable_iff)
next
  case (Cons c cs)
  show ?case
  proof (cases "longest_match (deriv c r) cs")
    case None
    then have no: "\<forall>m\<le>length cs. take m cs \<notin> lang (deriv c r)"
      by (simp add: longest_match_None)
    then have no': "\<And>m. 0 < m \<Longrightarrow> m \<le> Suc (length cs) \<Longrightarrow> take m (c # cs) \<notin> lang r"
      by (auto simp: lang_deriv take_Cons split: nat.splits)
    show ?thesis
    proof (cases n)
      case 0
      with None no' show ?thesis by (auto simp: nullable_iff)
    next
      case (Suc k)
      with None no'[of "Suc k"] show ?thesis by (auto split: if_splits)
    qed
  next
    case (Some k)
    then have k: "k \<le> length cs" "take k cs \<in> lang (deriv c r)"
      "\<forall>m. k < m \<and> m \<le> length cs \<longrightarrow> take m cs \<notin> lang (deriv c r)"
      using Cons.IH[of "deriv c r" k] by simp_all
    have up: "\<And>m. Suc k < m \<Longrightarrow> m \<le> Suc (length cs) \<Longrightarrow> take m (c # cs) \<notin> lang r"
    proof -
      fix m assume "Suc k < m" "m \<le> Suc (length cs)"
      then obtain j where "m = Suc j" "k < j" "j \<le> length cs"
        by (cases m) auto
      with k(3) show "take m (c # cs) \<notin> lang r"
        by (simp add: lang_deriv)
    qed
    show ?thesis
    proof
      assume "longest_match r (c # cs) = Some n"
      with Some have "n = Suc k" by simp
      with k up show "n \<le> length (c # cs) \<and> take n (c # cs) \<in> lang r \<and>
          (\<forall>m. n < m \<and> m \<le> length (c # cs) \<longrightarrow> take m (c # cs) \<notin> lang r)"
        by (simp add: lang_deriv)
    next
      assume a: "n \<le> length (c # cs) \<and> take n (c # cs) \<in> lang r \<and>
          (\<forall>m. n < m \<and> m \<le> length (c # cs) \<longrightarrow> take m (c # cs) \<notin> lang r)"
      have "take (Suc k) (c # cs) \<in> lang r" using k(2) by (simp add: lang_deriv)
      with a k(1) have "\<not> n < Suc k" by auto
      moreover have "\<not> Suc k < n" using up a by auto
      ultimately have "n = Suc k" by simp
      with Some show "longest_match r (c # cs) = Some n" by simp
    qed
  qed
qed

section \<open>What the patterns of the script match\<close>

lemma lang_lits [simp]: "lang (lits k) = {k}"
  by (induction k) auto

lemma star_chars: "star {[c] | c. P c} = {w. \<forall>c\<in>set w. P c}"
proof (intro set_eqI iffI)
  fix w assume "w \<in> star {[c] | c. P c}"
  then show "w \<in> {w. \<forall>c\<in>set w. P c}"
    by (induction rule: star.induct) auto
next
  fix w assume "w \<in> {w. \<forall>c\<in>set w. P c}"
  then have all: "\<forall>c\<in>set w. P c" by simp
  then show "w \<in> star {[c] | c. P c}"
  proof (induction w)
    case Nil
    show ?case by (rule star_empty)
  next
    case (Cons a w)
    then have "[a] \<in> {[c] | c. P c}" "w \<in> star {[c] | c. P c}" by auto
    from star_step[OF this] show ?case by simp
  qed
qed

lemma lang_star_class: "lang (Star (Class rs)) = {w. \<forall>c\<in>set w. in_class c rs}"
  by (simp add: star_chars)

lemma lang_star_dot: "lang (Star Dot) = UNIV"
  using star_chars[of "\<lambda>c. True"] by simp

lemma seq_memberI: "u \<in> lang r \<Longrightarrow> v \<in> lang s \<Longrightarrow> u @ v \<in> lang (Seq r s)"
  by auto

lemma lang_rep1_class:
  "lang (Rep1 (Class rs)) = {w. w \<noteq> [] \<and> (\<forall>c\<in>set w. in_class c rs)}"
proof (intro set_eqI iffI)
  fix w assume "w \<in> lang (Rep1 (Class rs))"
  then show "w \<in> {w. w \<noteq> [] \<and> (\<forall>c\<in>set w. in_class c rs)}"
    by (auto simp: Rep1_def star_chars)
next
  fix w assume "w \<in> {w. w \<noteq> [] \<and> (\<forall>c\<in>set w. in_class c rs)}"
  then obtain c cs where "w = c # cs" "in_class c rs" "\<forall>c\<in>set cs. in_class c rs"
    by (cases w) auto
  then have "[c] \<in> lang (Class rs)" "cs \<in> lang (Star (Class rs))" and w: "w = [c] @ cs"
    by (simp_all add: star_chars)
  then have "[c] @ cs \<in> lang (Seq (Class rs) (Star (Class rs)))"
    by (intro seq_memberI)
  with w show "w \<in> lang (Rep1 (Class rs))"
    by (simp only: Rep1_def)
qed

lemma in_class_digit [simp]: "in_class c [(CHR ''0'', CHR ''9'')] = is_digit c"
  by (simp add: is_digit_def)

lemma lang_digits: "lang (Rep1 digit_re) = {w. digits w}"
  by (auto simp: digit_re_def lang_rep1_class digits_def list_all_iff is_digit_def)

lemma lang_label:
  "lang (Opt (Seq (Lit CHR ''-'') (Rep1 label_re))) = {w. label_suffix w}"
proof (intro set_eqI)
  fix w
  have dot: "\<And>c. (CHR ''.'' \<le> c \<and> c \<le> CHR ''.'') = (c = CHR ''.'')"
    by auto
  show "w \<in> lang (Opt (Seq (Lit CHR ''-'') (Rep1 label_re))) \<longleftrightarrow> w \<in> {w. label_suffix w}"
    by (cases w)
      (auto simp: Opt_def label_re_def lang_rep1_class label_suffix_def list_all_iff
         is_digit_def dot)
qed

lemma semver_accepts:
  assumes "digits a" "digits b" "digits c" "label_suffix lab"
  shows "matches semver_re (version_string a b c lab)"
proof -
  have d: "a \<in> lang (Rep1 digit_re)" "b \<in> lang (Rep1 digit_re)" "c \<in> lang (Rep1 digit_re)"
    and l: "lab \<in> lang (Opt (Seq (Lit CHR ''-'') (Rep1 label_re)))"
    using assms by (simp_all add: lang_digits lang_label)
  have dot: "''.'' \<in> lang (Lit CHR ''.'')" by simp
  have "a @ ''.'' @ b @ ''.'' @ c @ lab \<in> lang semver_re"
    unfolding semver_re_def
    by (intro seq_memberI d dot l)
  then show ?thesis
    by (simp add: matches_iff version_string_def)
qed

section \<open>The version code\<close>

lemma lang_dash: "lang dash_re = {CHR ''-'' # w | w. True}"
  unfolding dash_re_def lang.simps(6) lang_star_dot
  by auto

lemma longest_match_dash:
  "longest_match dash_re (c # cs) = (if c = CHR ''-'' then Some (Suc (length cs)) else None)"
proof (cases "c = CHR ''-''")
  case True
  then show ?thesis
    by (simp add: longest_match_Some lang_dash del: longest_match.simps)
next
  case False
  have "\<forall>n\<le>length (c # cs). take n (c # cs) \<notin> lang dash_re"
    using False by (auto simp: lang_dash take_Cons split: nat.splits)
  with False show ?thesis
    by (simp only: longest_match_None[symmetric] if_False)
qed

lemma sed_dash: "sed_s dash_re [] s = takeWhile (\<lambda>c. c \<noteq> CHR ''-'') s"
proof (induction s)
  case Nil
  then show ?case by (simp add: dash_re_def)
next
  case (Cons c cs)
  then show ?case
    by (simp add: longest_match_dash del: longest_match.simps)
qed

lemma split_on_no_sep: "d \<notin> set x \<Longrightarrow> split_on d x = [x]"
  by (induction x) auto

lemma split_on_append: "d \<notin> set x \<Longrightarrow> split_on d (x @ d # rest) = x # split_on d rest"
  by (induction x) auto

lemma digits_chars: "digits a \<Longrightarrow> CHR ''.'' \<notin> set a \<and> CHR ''-'' \<notin> set a"
  by (auto simp: digits_def list_all_iff is_digit_def)

lemma label_suffix_cases: "label_suffix lab \<Longrightarrow> lab = [] \<or> (\<exists>l. lab = CHR ''-'' # l)"
  by (cases lab) (auto simp: label_suffix_def)

lemma takeWhile_whole:
  "\<forall>y\<in>set x. P y \<Longrightarrow> takeWhile P rest = [] \<Longrightarrow> takeWhile P (x @ rest) = x"
  by (simp add: takeWhile_append2)

lemma strip_label:
  assumes "digits a" "digits b" "digits c" "label_suffix lab"
  shows "sed_s dash_re [] (version_string a b c lab) = a @ CHR ''.'' # b @ CHR ''.'' # c"
proof -
  let ?x = "a @ CHR ''.'' # b @ CHR ''.'' # c"
  have x: "\<And>y. y \<in> set ?x \<Longrightarrow> y \<noteq> CHR ''-''"
    using assms(1-3) by (auto dest: digits_chars)
  have "takeWhile (\<lambda>c. c \<noteq> CHR ''-'') lab = []"
    using label_suffix_cases[OF assms(4)] by auto
  then have "takeWhile (\<lambda>c. c \<noteq> CHR ''-'') (?x @ lab) = ?x"
    using x by (intro takeWhile_whole) blast+
  moreover have "version_string a b c lab = ?x @ lab"
    by (simp add: version_string_def)
  ultimately show ?thesis
    by (simp only: sed_dash)
qed

lemma version_fields:
  assumes "digits a" "digits b" "digits c"
  shows "split_on (CHR ''.'') (a @ CHR ''.'' # b @ CHR ''.'' # c) = [a, b, c]"
proof -
  have no: "CHR ''.'' \<notin> set a" "CHR ''.'' \<notin> set b" "CHR ''.'' \<notin> set c"
    using assms by (simp_all add: digits_chars)
  have "split_on (CHR ''.'') (a @ CHR ''.'' # b @ CHR ''.'' # c) =
      a # split_on (CHR ''.'') (b @ CHR ''.'' # c)"
    by (rule split_on_append) (rule no(1))
  also have "split_on (CHR ''.'') (b @ CHR ''.'' # c) = b # split_on (CHR ''.'') c"
    by (rule split_on_append) (rule no(2))
  also have "split_on (CHR ''.'') c = [c]"
    by (rule split_on_no_sep) (rule no(3))
  finally show ?thesis .
qed

lemma version_code_version_string:
  assumes "digits a" "digits b" "digits c" "label_suffix lab"
  shows "version_code (version_string a b c lab) =
           dec (awk_num a) @ dec2 (awk_num b) @ dec2 (awk_num c)"
proof -
  have f: "awk_field 1 [a, b, c] = a" "awk_field 2 [a, b, c] = b" "awk_field 3 [a, b, c] = c"
    by (simp_all add: awk_field_def)
  show ?thesis
    unfolding version_code_def strip_label[OF assms] version_fields[OF assms(1-3)] Let_def f
    by (rule refl)
qed

text \<open>
  C2. Two valid versions whose major, minor and patch numbers are equal get the same
  version code, whatever their labels: the code is a function of the three numbers.
  The versions are written as the grammar builds them, from three runs of digits and a
  label part that is empty or a dash and a label; both pass validation.
\<close>

theorem version_code_ignores_label:
  assumes "digits a" "digits b" "digits c" "label_suffix lab"
    and "digits a'" "digits b'" "digits c'" "label_suffix lab'"
    and "awk_num a' = awk_num a" "awk_num b' = awk_num b" "awk_num c' = awk_num c"
  shows "matches semver_re (version_string a b c lab) \<and>
         matches semver_re (version_string a' b' c' lab') \<and>
         version_code (version_string a' b' c' lab') = version_code (version_string a b c lab)"
  using assms
  by (simp add: semver_accepts version_code_version_string del: matches.simps)

theorem version_code_ignores_label_witness:
  "matches semver_re ''1.2.3'' \<and> matches semver_re ''1.2.3-beta'' \<and>
   version_code ''1.2.3-beta'' = version_code ''1.2.3''"
proof -
  have d: "digits ''1''" "digits ''2''" "digits ''3''"
    and l: "label_suffix []" "label_suffix ''-beta''"
    by (simp_all add: digits_def is_digit_def label_suffix_def)
  from version_code_ignores_label[OF d l(1) d l(2)] show ?thesis
    by (simp add: version_string_def del: matches.simps)
qed

lemma digit_chr_digit: "d < 10 \<Longrightarrow> is_digit (digit_chr d) \<and> digit_val (digit_chr d) = d"
  by (simp add: is_digit_def digit_chr_def digit_val_def less_eq_char_def)

lemma dec_digits: "list_all is_digit (dec n)"
proof (induction n rule: dec.induct)
  case (1 n)
  then show ?case
    by (subst dec.simps) (simp add: digit_chr_digit)
qed

lemma dec_length_1: "n < 10 \<Longrightarrow> length (dec n) = 1"
  by (subst dec.simps) simp

lemma dec_length_2: "10 \<le> n \<Longrightarrow> n < 100 \<Longrightarrow> length (dec n) = 2"
  by (subst dec.simps) (simp add: dec_length_1)

lemma awk_num_digits:
  "list_all is_digit s \<Longrightarrow> awk_num s = foldl (\<lambda>n c. 10 * n + digit_val c) 0 s"
  by (simp add: awk_num_def list_all_iff takeWhile_eq_all_conv[THEN iffD2])

lemma foldl_digits:
  "foldl (\<lambda>n c. 10 * n + digit_val c) m s =
     m * 10 ^ length s + foldl (\<lambda>n c. 10 * n + digit_val c) 0 s"
proof -
  define f where "f = (\<lambda>n c. 10 * n + digit_val c)"
  have "foldl f m s = m * 10 ^ length s + foldl f 0 s"
  proof (induction s arbitrary: m)
    case Nil
    then show ?case by simp
  next
    case (Cons c s)
    have "foldl f m (c # s) = foldl f (10 * m + digit_val c) s"
      by (simp add: f_def)
    also have "\<dots> = (10 * m + digit_val c) * 10 ^ length s + foldl f 0 s"
      by (rule Cons.IH)
    finally have lhs: "foldl f m (c # s) = (10 * m + digit_val c) * 10 ^ length s + foldl f 0 s" .
    have "foldl f 0 (c # s) = foldl f (digit_val c) s"
      by (simp add: f_def)
    also have "\<dots> = digit_val c * 10 ^ length s + foldl f 0 s"
      by (rule Cons.IH)
    finally show ?case
      using lhs by (simp add: algebra_simps)
  qed
  then show ?thesis by (simp add: f_def)
qed

lemma awk_num_append:
  "list_all is_digit x \<Longrightarrow> list_all is_digit y \<Longrightarrow>
     awk_num (x @ y) = awk_num x * 10 ^ length y + awk_num y"
  using foldl_digits[of "foldl (\<lambda>n c. 10 * n + digit_val c) 0 x" y]
  by (simp add: awk_num_digits)

lemma awk_num_dec: "awk_num (dec n) = n"
proof (induction n rule: dec.induct)
  case (1 n)
  show ?case
  proof (cases "n < 10")
    case True
    then show ?thesis
      by (subst dec.simps) (simp add: awk_num_def digit_chr_digit)
  next
    case False
    have "awk_num (dec (n div 10) @ [digit_chr (n mod 10)]) =
        awk_num (dec (n div 10)) * 10 ^ 1 + awk_num [digit_chr (n mod 10)]"
      by (subst awk_num_append) (simp_all add: dec_digits digit_chr_digit)
    also have "\<dots> = n"
      using False "1.IH" by (simp add: awk_num_def digit_chr_digit)
    finally show ?thesis
      using False by (subst dec.simps) simp
  qed
qed

lemma dec2_facts:
  assumes "n < 100"
  shows "length (dec2 n) = 2" "list_all is_digit (dec2 n)" "awk_num (dec2 n) = n"
proof -
  have zero: "is_digit (CHR ''0'')" "digit_val (CHR ''0'') = 0"
    by (simp_all add: is_digit_def digit_val_def)
  show "length (dec2 n) = 2"
    using assms dec_length_1[of n] dec_length_2[of n] by (cases "n < 10") (simp_all add: dec2_def)
  show "list_all is_digit (dec2 n)"
    using dec_digits[of n] zero by (auto simp: dec2_def list_all_iff)
  have "awk_num (replicate k (CHR ''0'') @ dec n) = n" for k
  proof -
    have "awk_num (replicate k (CHR ''0'')) = 0"
      using zero by (induction k) (simp_all add: awk_num_def)
    moreover have "list_all is_digit (replicate k (CHR ''0''))"
      using zero by (simp add: list_all_iff)
    ultimately show ?thesis
      by (simp add: awk_num_append dec_digits awk_num_dec)
  qed
  then show "awk_num (dec2 n) = n"
    by (simp add: dec2_def)
qed

lemma version_code_formula:
  assumes "digits a" "digits b" "digits c" "label_suffix lab"
    and "awk_num b < 100" "awk_num c < 100"
  shows "awk_num (version_code (version_string a b c lab)) =
           awk_num a * 10000 + awk_num b * 100 + awk_num c"
proof -
  note B = dec2_facts[OF assms(5)] and C = dec2_facts[OF assms(6)]
  have "awk_num (dec (awk_num a) @ dec2 (awk_num b) @ dec2 (awk_num c)) =
      awk_num (dec (awk_num a)) * 10 ^ 4 + (awk_num (dec2 (awk_num b)) * 10 ^ 2 +
        awk_num (dec2 (awk_num c)))"
    using B C by (simp add: awk_num_append dec_digits)
  then show ?thesis
    using B C by (simp add: version_code_version_string[OF assms(1-4)] awk_num_dec)
qed

text \<open>
  C1. For minor and patch numbers below 100 the version code is
  \<open>major * 10000 + minor * 100 + patch\<close>, whatever the label (lemma
  \<open>version_code_formula\<close> above). \<^verbatim>\<open>%02d\<close> pads to two digits but does not cut to
  two: the valid version 1.100.0 gets the code 110000, where the formula gives 20000.
\<close>

theorem version_code_of_1_100_0:
  "matches semver_re ''1.100.0'' \<and> version_code ''1.100.0'' = ''110000'' \<and>
   sed_build_gradle ''1.100.0'' [''versionCode 1''] = [''versionCode 110000''] \<and>
   awk_num (version_code ''1.100.0'') = 110000 \<and>
   awk_num (version_code ''1.100.0'') \<noteq> 1 * 10000 + 100 * 100 + 0"
proof -
  have code: "matches semver_re ''1.100.0''" "version_code ''1.100.0'' = ''110000''"
    "sed_build_gradle ''1.100.0'' [''versionCode 1''] = [''versionCode 110000'']"
    by code_simp+
  have "awk_num ''110000'' = 110000"
    by (simp add: awk_num_def is_digit_def digit_val_def)
  with code show ?thesis
    by (simp del: matches.simps)
qed


section \<open>What the substitutions of the version bump replace\<close>

lemma lang_code_re:
  "lang (Seq (lits k) (Star digit_re)) = {k @ ds | ds. list_all is_digit ds}"
  unfolding lang.simps(6) lang_lits digit_re_def lang_star_class
  by (auto simp: list_all_iff is_digit_def)

lemma lang_quoted_re:
  "lang (Seq (lits k) (Seq (Star Dot) (Lit DQ))) = {k @ u @ [DQ] | u. True}"
  unfolding lang.simps(6) lang_lits lang_star_dot
  by auto

lemma take_key:
  assumes "n \<le> length (k @ t)" "take n (k @ t) = k @ ds"
  shows "ds = take (n - length k) t"
proof -
  have "length (take n (k @ t)) = length (k @ ds)"
    using assms(2) by simp
  then have "length k \<le> n"
    using assms(1) by simp
  with assms(2) show ?thesis
    by simp
qed

lemma all_digits_takeWhile:
  assumes "list_all is_digit (take j t)" "j \<le> length t"
  shows "j \<le> length (takeWhile is_digit t)"
proof (rule ccontr)
  assume "\<not> j \<le> length (takeWhile is_digit t)"
  then have lt: "length (takeWhile is_digit t) < j" by simp
  then have "length (takeWhile is_digit t) < length t" using assms(2) by simp
  then have "\<not> is_digit (t ! length (takeWhile is_digit t))"
    by (rule nth_length_takeWhile)
  moreover have "t ! length (takeWhile is_digit t) \<in> set (take j t)"
    using lt assms(2) by (auto simp: in_set_conv_nth intro!: exI[of _ "length (takeWhile is_digit t)"])
  ultimately show False
    using assms(1) by (simp add: list_all_iff)
qed

lemma longest_match_code_hit:
  "longest_match (Seq (lits k) (Star digit_re)) (k @ t) =
     Some (length k + length (takeWhile is_digit t))"
proof -
  let ?n = "length k + length (takeWhile is_digit t)"
  have le: "?n \<le> length (k @ t)"
    by (simp add: length_takeWhile_le)
  have "take ?n (k @ t) = k @ takeWhile is_digit t"
    by (simp add: takeWhile_eq_take[symmetric])
  moreover have "list_all is_digit (takeWhile is_digit t)"
    by (simp add: list_all_iff) (meson set_takeWhileD)
  ultimately have hit: "take ?n (k @ t) \<in> lang (Seq (lits k) (Star digit_re))"
    unfolding lang_code_re by blast
  have "take m (k @ t) \<notin> lang (Seq (lits k) (Star digit_re))" if "?n < m" "m \<le> length (k @ t)" for m
  proof
    assume "take m (k @ t) \<in> lang (Seq (lits k) (Star digit_re))"
    then obtain ds where ds: "take m (k @ t) = k @ ds" "list_all is_digit ds"
      unfolding lang_code_re by blast
    then have "ds = take (m - length k) t"
      using that(2) by (intro take_key[of m k t ds])
    with ds(2) have "m - length k \<le> length (takeWhile is_digit t)"
      using that(2) by (intro all_digits_takeWhile) simp_all
    with that(1) show False by simp
  qed
  with le hit show ?thesis
    unfolding longest_match_Some by blast
qed

lemma longest_match_code_miss:
  assumes "\<not> prefix k s"
  shows "longest_match (Seq (lits k) (Star digit_re)) s = None"
proof -
  have "take n s \<notin> lang (Seq (lits k) (Star digit_re))" for n
  proof
    assume "take n s \<in> lang (Seq (lits k) (Star digit_re))"
    then obtain ds where "take n s = k @ ds"
      unfolding lang_code_re by blast
    then have "prefix k (take n s)" by simp
    then have "prefix k s"
      using take_is_prefix prefix_order.trans by blast
    with assms show False by simp
  qed
  then show ?thesis
    unfolding longest_match_None by blast
qed

lemma longest_match_quoted_hit:
  assumes "DQ \<notin> set v"
  shows "longest_match (Seq (lits k) (Seq (Star Dot) (Lit DQ))) (k @ u @ DQ # v) =
           Some (length k + length u + 1)"
proof -
  let ?r = "Seq (lits k) (Seq (Star Dot) (Lit DQ))"
  let ?n = "length k + length u + 1"
  have le: "?n \<le> length (k @ u @ DQ # v)" by simp
  have tk: "take ?n (k @ u @ DQ # v) = k @ u @ [DQ]" by simp
  then have hit: "take ?n (k @ u @ DQ # v) \<in> lang ?r"
    unfolding lang_quoted_re by blast
  have "take m (k @ u @ DQ # v) \<notin> lang ?r" if "?n < m" "m \<le> length (k @ u @ DQ # v)" for m
  proof
    assume "take m (k @ u @ DQ # v) \<in> lang ?r"
    then obtain x where x: "take m (k @ u @ DQ # v) = k @ x @ [DQ]"
      unfolding lang_quoted_re by blast
    have split: "take m (k @ u @ DQ # v) = k @ u @ DQ # take (m - ?n) v"
      using that by (simp add: take_Cons')
    have ne: "take (m - ?n) v \<noteq> []"
      using that by auto
    from x split have "last (k @ u @ DQ # take (m - ?n) v) = DQ"
      by (metis append_assoc last_snoc)
    with ne have "last (take (m - ?n) v) = DQ"
      by simp
    with ne have "DQ \<in> set (take (m - ?n) v)"
      using last_in_set by metis
    then have "DQ \<in> set v"
      by (rule in_set_takeD)
    with assms show False by simp
  qed
  with le hit show ?thesis
    unfolding longest_match_Some by blast
qed

lemma longest_match_quoted_miss:
  assumes "\<not> (prefix k s \<and> DQ \<in> set (drop (length k) s))"
  shows "longest_match (Seq (lits k) (Seq (Star Dot) (Lit DQ))) s = None"
proof -
  let ?r = "Seq (lits k) (Seq (Star Dot) (Lit DQ))"
  have "take n s \<notin> lang ?r" for n
  proof
    assume "take n s \<in> lang ?r"
    then obtain x where x: "take n s = k @ x @ [DQ]"
      unfolding lang_quoted_re by blast
    have s: "s = (k @ x @ [DQ]) @ drop n s"
      using x append_take_drop_id[of n s] by simp
    then have "prefix k s"
      by (metis append_assoc prefixI)
    moreover have "drop (length k) s = x @ [DQ] @ drop n s"
      using s by (metis append_assoc append_eq_conv_conj)
    then have "DQ \<in> set (drop (length k) s)"
      by simp
    ultimately show False using assms by simp
  qed
  then show ?thesis
    unfolding longest_match_None by blast
qed

lemma patterns_by_shape:
  "version_code_re = key_digits code_key" "version_name_re = key_quoted name_key"
  "pkg_version_re = key_quoted pkg_key"
  by (simp_all add: version_code_re_def version_name_re_def pkg_version_re_def
        key_digits_def key_quoted_def)

lemma nullable_lits: "nullable (lits k) = (k = [])"
  by (cases k) simp_all

lemma sed_digits_nil: "k \<noteq> [] \<Longrightarrow> sed_s (key_digits k) rep [] = []"
  by (simp add: key_digits_def nullable_lits)

lemma sed_quoted_nil: "sed_s (key_quoted k) rep [] = []"
  by (simp add: key_quoted_def)

lemma sed_digits_hit:
  assumes "k \<noteq> []"
  shows "sed_s (key_digits k) rep (k @ t) = rep @ dropWhile is_digit t"
proof -
  obtain c cs where s: "k @ t = c # cs"
    using assms by (cases k) auto
  have "sed_s (key_digits k) rep (c # cs) =
      rep @ drop (length k + length (takeWhile is_digit t)) (c # cs)"
    using longest_match_code_hit[of k t]
    by (simp add: key_digits_def s del: longest_match.simps)
  then show ?thesis
    by (simp add: s[symmetric] dropWhile_eq_drop)
qed

lemma sed_digits_miss:
  "\<not> prefix k (c # cs) \<Longrightarrow>
     sed_s (key_digits k) rep (c # cs) = c # sed_s (key_digits k) rep cs"
  using longest_match_code_miss[of k "c # cs"]
  by (simp add: key_digits_def del: longest_match.simps)

lemma sed_quoted_hit:
  assumes "k \<noteq> []" "DQ \<notin> set v"
  shows "sed_s (key_quoted k) rep (k @ u @ DQ # v) = rep @ v"
proof -
  obtain c cs where s: "k @ u @ DQ # v = c # cs"
    using assms by (cases k) auto
  have "sed_s (key_quoted k) rep (c # cs) = rep @ drop (length k + length u + 1) (c # cs)"
    using longest_match_quoted_hit[OF assms(2), of k u]
    by (simp add: key_quoted_def s del: longest_match.simps)
  then show ?thesis
    by (simp add: s[symmetric])
qed

lemma sed_quoted_miss:
  "\<not> (prefix k (c # cs) \<and> DQ \<in> set (drop (length k) (c # cs))) \<Longrightarrow>
     sed_s (key_quoted k) rep (c # cs) = c # sed_s (key_quoted k) rep cs"
  using longest_match_quoted_miss[of k "c # cs"]
  by (simp add: key_quoted_def del: longest_match.simps)

lemma quoted_hit_shape:
  assumes "prefix k s" "DQ \<in> set (drop (length k) s)"
  obtains u v where "s = k @ u @ DQ # v" "DQ \<notin> set v"
proof -
  from assms(1) obtain t where t: "s = k @ t" by (auto simp: prefix_def)
  with assms(2) have "DQ \<in> set t" by simp
  then obtain u v where "t = u @ DQ # v" "DQ \<notin> set v"
    by (auto dest: split_list_last)
  with t that show ?thesis by simp
qed

declare sed_s.simps [simp del]

subsection \<open>The first characters of a line up to the key's length are kept\<close>

lemma sed_digits_take:
  assumes "k \<noteq> []" "prefix k rep"
  shows "j \<le> length k \<Longrightarrow> take j (sed_s (key_digits k) rep s) = take j s"
proof (induction s arbitrary: j)
  case Nil
  then show ?case by (simp add: sed_digits_nil[OF assms(1)])
next
  case (Cons c cs)
  show ?case
  proof (cases "prefix k (c # cs)")
    case True
    then obtain t where t: "c # cs = k @ t" by (auto simp: prefix_def)
    from assms(2) obtain r where r: "rep = k @ r" by (auto simp: prefix_def)
    show ?thesis
      using Cons.prems by (simp add: t sed_digits_hit[OF assms(1)] r)
  next
    case False
    show ?thesis
      using Cons.prems Cons.IH[of "j - 1"]
      by (cases j) (simp_all add: sed_digits_miss[OF False])
  qed
qed

lemma sed_quoted_take:
  assumes "k \<noteq> []" "prefix k rep"
  shows "j \<le> length k \<Longrightarrow> take j (sed_s (key_quoted k) rep s) = take j s"
proof (induction s arbitrary: j)
  case Nil
  then show ?case by (simp add: sed_quoted_nil)
next
  case (Cons c cs)
  show ?case
  proof (cases "prefix k (c # cs) \<and> DQ \<in> set (drop (length k) (c # cs))")
    case True
    then obtain u v where s: "c # cs = k @ u @ DQ # v" "DQ \<notin> set v"
      by (auto elim: quoted_hit_shape)
    from assms(2) obtain r where r: "rep = k @ r" by (auto simp: prefix_def)
    show ?thesis
      using Cons.prems by (simp add: s(1) sed_quoted_hit[OF assms(1) s(2)] r)
  next
    case False
    show ?thesis
      using Cons.prems Cons.IH[of "j - 1"]
      by (cases j) (simp_all add: sed_quoted_miss[OF False])
  qed
qed

lemma prefix_take: "prefix p s \<longleftrightarrow> take (length p) s = p"
  by (metis append_eq_conv_conj prefix_def append_take_drop_id)

lemma prefix_by_take:
  assumes "take (length p) s' = take (length p) s"
  shows "prefix p s' \<longleftrightarrow> prefix p s"
  using assms by (simp add: prefix_take)

subsection \<open>Each substitution, done twice, is the substitution done once\<close>

lemma sed_digits_twice:
  assumes "k \<noteq> []" "list_all is_digit code"
  shows "sed_s (key_digits k) (k @ code) (sed_s (key_digits k) (k @ code) s) =
           sed_s (key_digits k) (k @ code) s"
proof (induction s)
  case Nil
  then show ?case by (simp add: sed_digits_nil[OF assms(1)])
next
  case (Cons c cs)
  show ?case
  proof (cases "prefix k (c # cs)")
    case True
    then obtain t where t: "c # cs = k @ t" by (auto simp: prefix_def)
    have "dropWhile is_digit (code @ dropWhile is_digit t) = dropWhile is_digit t"
      using assms(2) by (simp add: dropWhile_append2 list_all_iff)
    then show ?thesis
      by (simp add: t sed_digits_hit[OF assms(1)])
  next
    case False
    have step: "sed_s (key_digits k) (k @ code) (c # cs) = c # sed_s (key_digits k) (k @ code) cs"
      by (rule sed_digits_miss[OF False])
    have "take (length k) (sed_s (key_digits k) (k @ code) (c # cs)) = take (length k) (c # cs)"
      by (rule sed_digits_take[OF assms(1)]) simp_all
    then have "\<not> prefix k (c # sed_s (key_digits k) (k @ code) cs)"
      using False prefix_by_take[of k] step by metis
    then show ?thesis
      by (simp add: step sed_digits_miss Cons.IH)
  qed
qed

lemma sed_quoted_changed:
  assumes "k \<noteq> []"
  shows "sed_s (key_quoted k) rep s \<noteq> s \<Longrightarrow> DQ \<in> set (drop (length k) s)"
proof (induction s)
  case Nil
  then show ?case by (simp add: sed_quoted_nil)
next
  case (Cons c cs)
  show ?case
  proof (cases "prefix k (c # cs) \<and> DQ \<in> set (drop (length k) (c # cs))")
    case True
    then show ?thesis by simp
  next
    case False
    with Cons.prems have "sed_s (key_quoted k) rep cs \<noteq> cs"
      by (simp add: sed_quoted_miss[OF False])
    then have "DQ \<in> set (drop (length k) cs)"
      by (rule Cons.IH)
    moreover have "set (drop (length k) cs) \<subseteq> set (drop (length k - 1) cs)"
      by (rule set_drop_subset_set_drop) simp
    ultimately show ?thesis
      using assms by (cases k) auto
  qed
qed

lemma sed_quoted_twice:
  assumes "k \<noteq> []" "DQ \<notin> set v"
  shows "sed_s (key_quoted k) (k @ v @ [DQ]) (sed_s (key_quoted k) (k @ v @ [DQ]) s) =
           sed_s (key_quoted k) (k @ v @ [DQ]) s"
proof (induction s)
  case Nil
  then show ?case by (simp add: sed_quoted_nil)
next
  case (Cons c cs)
  let ?N = "sed_s (key_quoted k) (k @ v @ [DQ])"
  show ?case
  proof (cases "prefix k (c # cs) \<and> DQ \<in> set (drop (length k) (c # cs))")
    case True
    then obtain u w where s: "c # cs = k @ u @ DQ # w" "DQ \<notin> set w"
      by (auto elim: quoted_hit_shape)
    have "?N (k @ u @ DQ # w) = k @ v @ DQ # w"
      by (simp add: sed_quoted_hit[OF assms(1) s(2)])
    moreover have "?N (k @ v @ DQ # w) = k @ v @ DQ # w"
      by (simp add: sed_quoted_hit[OF assms(1) s(2)])
    ultimately show ?thesis
      by (simp only: s(1))
  next
    case False
    have step: "?N (c # cs) = c # ?N cs"
      by (rule sed_quoted_miss[OF False])
    show ?thesis
    proof (cases "?N cs = cs")
      case True
      then show ?thesis by (simp add: step)
    next
      case changed: False
      then have "DQ \<in> set (drop (length k) cs)"
        by (rule sed_quoted_changed[OF assms(1)])
      moreover have "set (drop (length k) cs) \<subseteq> set (drop (length k - 1) cs)"
        by (rule set_drop_subset_set_drop) simp
      ultimately have "DQ \<in> set (drop (length k) (c # cs))"
        using assms(1) by (cases k) auto
      with False have np: "\<not> prefix k (c # cs)" by simp
      have "take (length k) (?N (c # cs)) = take (length k) (c # cs)"
        by (rule sed_quoted_take[OF assms(1)]) simp_all
      then have "\<not> prefix k (c # ?N cs)"
        using np prefix_by_take[of k] step by metis
      then have "?N (c # ?N cs) = c # ?N (?N cs)"
        by (intro sed_quoted_miss) simp
      then show ?thesis
        by (simp add: step Cons.IH)
    qed
  qed
qed

subsection \<open>Occurrences of a text in a line\<close>

lemma occurs_empty [simp]: "occurs [] s"
  by (cases s) simp_all

lemma occurs_append_right: "occurs p b \<Longrightarrow> occurs p (a @ b)"
  by (induction a) simp_all

lemma occurs_set: "occurs p s \<Longrightarrow> set p \<subseteq> set s"
proof (induction s)
  case Nil
  then show ?case by simp
next
  case (Cons c cs)
  then show ?case
    using set_mono_prefix[of p "c # cs"] by auto
qed

lemma prefix_before_char: "c \<notin> set p \<Longrightarrow> prefix p (a @ c # b) \<longleftrightarrow> prefix p a"
  by (auto simp: prefix_append prefix_Cons)

lemma occurs_around_char:
  "c \<notin> set p \<Longrightarrow> occurs p (a @ c # b) \<longleftrightarrow> occurs p a \<or> occurs p b"
proof (induction a)
  case Nil
  then show ?case
    by (auto simp: prefix_Cons)
next
  case (Cons x a)
  have "prefix p ((x # a) @ c # b) \<longleftrightarrow> prefix p (x # a)"
    using Cons.prems by (rule prefix_before_char)
  with Cons show ?case by auto
qed

lemma occurs_after_chars:
  assumes "p \<noteq> []" "\<forall>c\<in>set ds. c \<notin> set p"
  shows "occurs p (ds @ b) \<longleftrightarrow> occurs p b"
  using assms(2)
proof (induction ds)
  case Nil
  then show ?case by simp
next
  case (Cons d ds)
  have "occurs p ([] @ d # (ds @ b)) \<longleftrightarrow> occurs p [] \<or> occurs p (ds @ b)"
    using Cons.prems by (intro occurs_around_char) simp
  with Cons assms(1) show ?case by simp
qed

lemma not_occurs_Cons: "\<not> occurs p (c # cs) \<Longrightarrow> \<not> prefix p (c # cs) \<and> \<not> occurs p cs"
  by simp

subsection \<open>A substitution does not create the other key\<close>

lemma prefix_Cons_take:
  assumes "p \<noteq> []" "take (length p - 1) s' = take (length p - 1) s"
  shows "prefix p (c # s') \<longleftrightarrow> prefix p (c # s)"
proof -
  have "take (length p) (c # s') = take (length p) (c # s)"
    using assms by (cases p) simp_all
  then show ?thesis by (rule prefix_by_take)
qed

lemma sed_digits_fresh:
  assumes "k \<noteq> []" "code \<noteq> []" "\<forall>c\<in>set code. c \<notin> set p" "p \<noteq> []" "\<not> occurs p k"
    "length p \<le> length k + 1"
  shows "\<not> occurs p s \<Longrightarrow> \<not> occurs p (sed_s (key_digits k) (k @ code) s)"
proof (induction s)
  case Nil
  then show ?case by (simp add: sed_digits_nil[OF assms(1)])
next
  case (Cons c cs)
  let ?C = "sed_s (key_digits k) (k @ code)"
  show ?case
  proof (cases "prefix k (c # cs)")
    case True
    then obtain t where t: "c # cs = k @ t" by (auto simp: prefix_def)
    obtain d ds where code: "code = d # ds" using assms(2) by (cases code) auto
    have "\<not> occurs p (dropWhile is_digit t)"
    proof
      assume "occurs p (dropWhile is_digit t)"
      then have "occurs p (takeWhile is_digit t @ dropWhile is_digit t)"
        by (rule occurs_append_right)
      then have "occurs p (k @ t)"
        by (simp add: occurs_append_right)
      with Cons.prems t show False by simp
    qed
    then have "\<not> occurs p (ds @ dropWhile is_digit t)"
      using assms(3,4) code by (simp add: occurs_after_chars)
    then have "\<not> occurs p (k @ d # (ds @ dropWhile is_digit t))"
      using assms(3,5) code by (simp add: occurs_around_char)
    then show ?thesis
      by (simp add: t sed_digits_hit[OF assms(1)] code)
  next
    case False
    have step: "?C (c # cs) = c # ?C cs"
      by (rule sed_digits_miss[OF False])
    have "take (length p - 1) (?C cs) = take (length p - 1) cs"
      using assms(6) by (intro sed_digits_take[OF assms(1)]) simp_all
    then have "prefix p (c # ?C cs) \<longleftrightarrow> prefix p (c # cs)"
      by (rule prefix_Cons_take[OF assms(4)])
    with Cons show ?thesis
      by (simp add: step)
  qed
qed

lemma sed_quoted_fresh:
  assumes "k \<noteq> []" "DQ \<notin> set p" "p \<noteq> []" "\<not> occurs p (k @ v)" "length p \<le> length k + 1"
  shows "\<not> occurs p s \<Longrightarrow> \<not> occurs p (sed_s (key_quoted k) (k @ v @ [DQ]) s)"
proof (induction s)
  case Nil
  then show ?case by (simp add: sed_quoted_nil)
next
  case (Cons c cs)
  let ?N = "sed_s (key_quoted k) (k @ v @ [DQ])"
  show ?case
  proof (cases "prefix k (c # cs) \<and> DQ \<in> set (drop (length k) (c # cs))")
    case True
    then obtain u w where s: "c # cs = k @ u @ DQ # w" "DQ \<notin> set w"
      by (auto elim: quoted_hit_shape)
    have "\<not> occurs p w"
    proof
      assume "occurs p w"
      then have "occurs p ((k @ u @ [DQ]) @ w)"
        by (rule occurs_append_right)
      with Cons.prems s(1) show False by simp
    qed
    then have "\<not> occurs p ((k @ v) @ DQ # w)"
      using assms(4) occurs_around_char[OF assms(2), of "k @ v" w] by blast
    then show ?thesis
      by (simp add: s(1) sed_quoted_hit[OF assms(1) s(2)])
  next
    case False
    have step: "?N (c # cs) = c # ?N cs"
      by (rule sed_quoted_miss[OF False])
    have "take (length p - 1) (?N cs) = take (length p - 1) cs"
      using assms(5) by (intro sed_quoted_take[OF assms(1)]) simp_all
    then have "prefix p (c # ?N cs) \<longleftrightarrow> prefix p (c # cs)"
      by (rule prefix_Cons_take[OF assms(3)])
    with Cons show ?thesis
      by (simp add: step)
  qed
qed

subsection \<open>A line without the key is left as it is\<close>

lemma sed_digits_absent:
  assumes "k \<noteq> []"
  shows "\<not> occurs k s \<Longrightarrow> sed_s (key_digits k) rep s = s"
proof (induction s)
  case Nil
  then show ?case by (simp add: sed_digits_nil[OF assms])
next
  case (Cons c cs)
  then show ?case by (simp add: sed_digits_miss)
qed

lemma sed_quoted_absent: "\<not> occurs k s \<Longrightarrow> sed_s (key_quoted k) rep s = s"
proof (induction s)
  case Nil
  then show ?case by (simp add: sed_quoted_nil)
next
  case (Cons c cs)
  then show ?case by (simp add: sed_quoted_miss)
qed

subsection \<open>The characters of a valid version and of its code\<close>

lemma digits_plain: "digits a \<Longrightarrow> DQ \<notin> set a \<and> CHR '' '' \<notin> set a"
  by (auto simp: digits_def list_all_iff is_digit_def DQ_def)

lemma label_plain: "label_suffix lab \<Longrightarrow> DQ \<notin> set lab \<and> CHR '' '' \<notin> set lab"
  by (cases lab) (auto simp: label_suffix_def list_all_iff is_digit_def DQ_def)

lemma semver_shape:
  assumes "matches semver_re version"
  obtains a b c lab where "version = version_string a b c lab"
    "digits a" "digits b" "digits c" "label_suffix lab"
proof -
  from assms have "version \<in> lang semver_re"
    by (simp add: matches_iff)
  then obtain a b c lab where "version = a @ ''.'' @ b @ ''.'' @ c @ lab"
    "a \<in> lang (Rep1 digit_re)" "b \<in> lang (Rep1 digit_re)" "c \<in> lang (Rep1 digit_re)"
    "lab \<in> lang (Opt (Seq (Lit CHR ''-'') (Rep1 label_re)))"
    unfolding semver_re_def lang.simps(3,6) by blast
  then show ?thesis
    using that by (simp add: version_string_def lang_digits lang_label)
qed

lemma valid_version_plain:
  assumes "matches semver_re version"
  shows "DQ \<notin> set version \<and> CHR '' '' \<notin> set version"
proof -
  from assms obtain a b c lab where v: "version = version_string a b c lab"
    and d: "digits a" "digits b" "digits c" and l: "label_suffix lab"
    by (rule semver_shape)
  show ?thesis
    using digits_plain[OF d(1)] digits_plain[OF d(2)] digits_plain[OF d(3)] label_plain[OF l]
    by (simp add: v version_string_def DQ_def)
qed

lemma dec_nonempty: "dec n \<noteq> []"
  by (subst dec.simps) simp

lemma dec2_digits: "list_all is_digit (dec2 n)"
  using dec_digits[of n] by (auto simp: dec2_def list_all_iff is_digit_def)

lemma version_code_digits: "version_code version \<noteq> [] \<and> list_all is_digit (version_code version)"
  by (simp add: version_code_def Let_def dec_nonempty dec_digits dec2_digits)

subsection \<open>The keys of the build descriptor\<close>

lemma keys_nonempty: "code_key \<noteq> []" "name_key \<noteq> []" "pkg_key \<noteq> []"
  by (simp_all add: code_key_def name_key_def pkg_key_def)

lemma name_key_no_digit: "is_digit c \<Longrightarrow> c \<notin> set name_key"
  by (auto simp: name_key_def is_digit_def DQ_def)

lemma keys_apart: "\<not> occurs name_key code_key" "\<not> occurs code_key ''versionName ''"
  by code_simp+

lemma keys_length: "length name_key \<le> length code_key + 1" "length code_key \<le> length name_key + 1"
  by (simp_all add: name_key_def code_key_def)

lemma code_key_chars: "DQ \<notin> set code_key" "CHR '' '' \<in> set code_key"
  by (simp_all add: code_key_def DQ_def)

lemma code_key_not_in_name:
  assumes "CHR '' '' \<notin> set v"
  shows "\<not> occurs code_key (name_key @ v)"
proof
  assume "occurs code_key (name_key @ v)"
  then have "occurs code_key (''versionName '' @ DQ # v)"
    by (simp add: name_key_def)
  then have "occurs code_key ''versionName '' \<or> occurs code_key v"
    using occurs_around_char[OF code_key_chars(1), of "''versionName ''" v] by blast
  then have "occurs code_key v"
    using keys_apart(2) by blast
  then have "set code_key \<subseteq> set v"
    by (rule occurs_set)
  with code_key_chars(2) assms show False by blast
qed

subsection \<open>The build descriptor, bumped twice\<close>

lemma gradle_line_twice:
  assumes "matches semver_re version" "\<not> (occurs name_key l \<and> occurs code_key l)"
  shows "sed_s version_name_re (name_key @ version @ [DQ])
           (sed_s version_code_re (code_key @ version_code version)
              (sed_s version_name_re (name_key @ version @ [DQ])
                 (sed_s version_code_re (code_key @ version_code version) l))) =
         sed_s version_name_re (name_key @ version @ [DQ])
           (sed_s version_code_re (code_key @ version_code version) l)"
proof -
  let ?C = "sed_s (key_digits code_key) (code_key @ version_code version)"
  let ?N = "sed_s (key_quoted name_key) (name_key @ version @ [DQ])"
  note plain = valid_version_plain[OF assms(1)]
  note code = version_code_digits[of version]
  have CC: "?C (?C x) = ?C x" for x
    using code by (intro sed_digits_twice keys_nonempty) simp
  have NN: "?N (?N x) = ?N x" for x
    using plain by (intro sed_quoted_twice keys_nonempty) simp
  have "?N (?C (?N (?C l))) = ?N (?C l)"
  proof (cases "occurs name_key l")
    case False
    have "\<not> occurs name_key (?C l)"
      using code keys_apart(1) keys_length(1) False
      by (intro sed_digits_fresh keys_nonempty)
        (auto simp: list_all_iff dest: name_key_no_digit)
    then have "?N (?C l) = ?C l"
      by (rule sed_quoted_absent)
    then show ?thesis
      by (simp add: CC)
  next
    case True
    with assms(2) have no: "\<not> occurs code_key l" by simp
    then have C: "?C l = l"
      by (rule sed_digits_absent[OF keys_nonempty(1)])
    have "\<not> occurs code_key (?N l)"
      using no plain code_key_chars(1) keys_length(2)
      by (intro sed_quoted_fresh keys_nonempty code_key_not_in_name) simp_all
    then have "?C (?N l) = ?N l"
      by (rule sed_digits_absent[OF keys_nonempty(1)])
    then show ?thesis
      by (simp add: C NN)
  qed
  then show ?thesis
    by (simp only: patterns_by_shape)
qed

lemma sed_build_gradle_twice:
  assumes "matches semver_re version"
    "\<forall>l\<in>set content. \<not> (occurs name_key l \<and> occurs code_key l)"
  shows "sed_build_gradle version (sed_build_gradle version content) =
           sed_build_gradle version content"
  using assms(2)
  by (induction content) (simp_all add: sed_build_gradle_def gradle_line_twice[OF assms(1)])

lemma sed_package_json_twice:
  assumes "matches semver_re version"
  shows "sed_package_json version (sed_package_json version content) =
           sed_package_json version content"
proof -
  have "sed_s (key_quoted pkg_key) (pkg_key @ version @ [DQ])
          (sed_s (key_quoted pkg_key) (pkg_key @ version @ [DQ]) l) =
        sed_s (key_quoted pkg_key) (pkg_key @ version @ [DQ]) l" for l
    using valid_version_plain[OF assms] by (intro sed_quoted_twice keys_nonempty) simp
  then show ?thesis
    by (induction content) (simp_all add: sed_package_json_def patterns_by_shape)
qed

subsection \<open>The manifest through \<^verbatim>\<open>jq\<close>, twice\<close>

lemma set_key_twice: "set_key k x (set_key k x kvs) = set_key k x kvs"
  by (induction kvs) auto

lemma jq_assign_twice:
  "jq_assign_version version j = Some j' \<Longrightarrow> jq_assign_version version j' = Some j'"
  by (cases j) (auto simp: set_key_twice)

lemma those_map_twice:
  assumes "\<And>x y. f x = Some y \<Longrightarrow> f y = Some y"
  shows "those (map f xs) = Some ys \<Longrightarrow> those (map f ys) = Some ys"
proof (induction xs arbitrary: ys)
  case Nil
  then show ?case by simp
next
  case (Cons x xs)
  then obtain y ys' where "f x = Some y" "those (map f xs) = Some ys'" "ys = y # ys'"
    by (auto split: option.splits)
  with Cons.IH[of ys'] assms[of x y] show ?case by simp
qed

lemma jq_set_version_twice:
  assumes "\<forall>docs. json_parse e (concat (map (json_print e) docs)) = Some docs"
    and "jq_set_version e version content = Inr out"
  shows "jq_set_version e version out = Inr out"
proof -
  from assms(2) obtain docs docs' where "json_parse e content = Some docs"
    and t: "those (map (jq_assign_version version) docs) = Some docs'"
    and out: "out = concat (map (json_print e) docs')"
    by (auto simp: jq_set_version_def split: option.splits)
  have "those (map (jq_assign_version version) docs') = Some docs'"
    using t by (rule those_map_twice[rotated]) (rule jq_assign_twice)
  then show ?thesis
    using assms(1) by (simp add: jq_set_version_def out)
qed

subsection \<open>The two functions of the version bump\<close>

lemma update_package_json_grep:
  assumes "update_package_json e version w = Continue w'"
  shows "filter (grep_line version_word_re) (package_json w') \<noteq> [] \<and> USE_JQ w' = USE_JQ w"
  using assms unfolding update_package_json_def Let_def
  by (auto elim!: and_then_Continue_cases split: if_splits sum.splits simp del: filter.simps)

lemma update_package_json_again:
  assumes "if USE_JQ w then jq_set_version e version (package_json w) = Inr content
           else sed_package_json version (package_json w) = content"
    and "filter (grep_line version_word_re) content \<noteq> []"
  shows "\<exists>w'. update_package_json e version w = Continue w' \<and> package_json w' = content \<and>
           build_gradle w' = build_gradle w"
  using assms unfolding update_package_json_def Let_def
  by (auto split: if_splits simp del: filter.simps)

lemma update_android_version_total:
  "\<exists>w'. update_android_version version w = Continue w' \<and>
     build_gradle w' = sed_build_gradle version (build_gradle w) \<and>
     package_json w' = package_json w \<and> USE_JQ w' = USE_JQ w"
  by (simp add: update_android_version_def Let_def)

lemma apply_version_Continue:
  assumes "apply_version e version w = Continue w1"
  shows "(if USE_JQ w then jq_set_version e version (package_json w) = Inr (package_json w1)
          else package_json w1 = sed_package_json version (package_json w)) \<and>
         build_gradle w1 = sed_build_gradle version (build_gradle w) \<and>
         filter (grep_line version_word_re) (package_json w1) \<noteq> [] \<and> USE_JQ w1 = USE_JQ w"
proof -
  from assms obtain wa where a: "update_package_json e version w = Continue wa"
    and b: "update_android_version version wa = Continue w1"
    unfolding apply_version_def by (auto elim!: and_then_Continue_cases)
  from update_android_version_total[of version wa] b
  have w1: "build_gradle w1 = sed_build_gradle version (build_gradle wa)"
    "package_json w1 = package_json wa" "USE_JQ w1 = USE_JQ wa"
    by auto
  with update_package_json_Continue[OF a] update_package_json_grep[OF a] show ?thesis
    by (auto simp del: filter.simps)
qed

lemma apply_version_again:
  assumes "if USE_JQ w then jq_set_version e version (package_json w) = Inr content
           else sed_package_json version (package_json w) = content"
    and "filter (grep_line version_word_re) content \<noteq> []"
  shows "\<exists>w'. apply_version e version w = Continue w' \<and> package_json w' = content \<and>
           build_gradle w' = sed_build_gradle version (build_gradle w)"
proof -
  from update_package_json_again[OF assms] obtain wa
    where "update_package_json e version w = Continue wa" "package_json wa = content"
      "build_gradle wa = build_gradle w"
    by blast
  with update_android_version_total[of version wa] show ?thesis
    by (auto simp: apply_version_def)
qed

section \<open>Bumping the version twice\<close>

text \<open>
  C6, as amended. For a valid version, applying the descriptor mutation a second time
  succeeds again and leaves the manifest and the build descriptor as the first
  application left them, provided that no line of the build descriptor holds both
  \<^verbatim>\<open>versionName "\<close> and \<^verbatim>\<open>versionCode \<close>, and that, when \<^verbatim>\<open>jq\<close> is used, reading
  back what \<^verbatim>\<open>jq\<close> printed gives the documents it printed.
\<close>

theorem bump_twice_same_files:
  assumes "matches semver_re version"
    and "\<forall>l\<in>set (build_gradle w). \<not> (occurs name_key l \<and> occurs code_key l)"
    and "USE_JQ w \<longrightarrow> (\<forall>docs. json_parse e (concat (map (json_print e) docs)) = Some docs)"
    and "apply_version e version w = Continue w1"
  shows "\<exists>w2. apply_version e version w1 = Continue w2 \<and>
           package_json w2 = package_json w1 \<and> build_gradle w2 = build_gradle w1"
proof -
  note first = apply_version_Continue[OF assms(4)]
  have pkg: "if USE_JQ w1 then jq_set_version e version (package_json w1) = Inr (package_json w1)
      else sed_package_json version (package_json w1) = package_json w1"
  proof (cases "USE_JQ w")
    case True
    with first assms(3) show ?thesis
      by (auto intro: jq_set_version_twice)
  next
    case False
    with first show ?thesis
      by (simp add: sed_package_json_twice[OF assms(1)] del: filter.simps)
  qed
  have grep: "filter (grep_line version_word_re) (package_json w1) \<noteq> []"
    using first by blast
  from apply_version_again[OF pkg grep] obtain w2
    where w2: "apply_version e version w1 = Continue w2" "package_json w2 = package_json w1"
      "build_gradle w2 = sed_build_gradle version (build_gradle w1)"
    by blast
  have "sed_build_gradle version (build_gradle w1) = build_gradle w1"
    using first by (simp add: sed_build_gradle_twice[OF assms(1,2)] del: filter.simps)
  with w2 show ?thesis by simp
qed

lemma example_lines:
  "list_all (\<lambda>l. \<not> (occurs name_key l \<and> occurs code_key l)) example_descriptor"
  by code_simp

theorem bump_twice_same_files_witness:
  "\<exists>w1 w2. apply_version example_env ''1.0.0'' example_world = Continue w1 \<and>
     apply_version example_env ''1.0.0'' w1 = Continue w2 \<and>
     package_json w1 = manifest_1_0_0 \<and> build_gradle w1 = descriptor_1_0_0 \<and>
     package_json w2 = manifest_1_0_0 \<and> build_gradle w2 = descriptor_1_0_0"
proof -
  have "if USE_JQ example_world
        then jq_set_version example_env ''1.0.0'' (package_json example_world) = Inr manifest_1_0_0
        else sed_package_json ''1.0.0'' (package_json example_world) = manifest_1_0_0"
    by (simp add: example_world_def example_package_json)
  from apply_version_again[OF this example_grep] obtain w1
    where w1: "apply_version example_env ''1.0.0'' example_world = Continue w1"
      "package_json w1 = manifest_1_0_0" "build_gradle w1 = descriptor_1_0_0"
    by (auto simp: example_world_files example_build_gradle)
  have lines: "\<forall>l\<in>set (build_gradle example_world). \<not> (occurs name_key l \<and> occurs code_key l)"
    using example_lines by (simp add: example_world_files list_all_iff)
  have nojq: "USE_JQ example_world \<longrightarrow>
      (\<forall>docs. json_parse example_env (concat (map (json_print example_env) docs)) = Some docs)"
    by (simp add: example_world_def)
  from bump_twice_same_files[OF example_valid lines nojq w1(1)] w1 show ?thesis
    by auto
qed

lemma odd_descriptor_bumps:
  "sed_build_gradle ''1.2.3'' odd_descriptor = odd_descriptor_once"
  "sed_build_gradle ''1.2.3'' odd_descriptor_once = odd_descriptor_twice"
  "odd_descriptor_once \<noteq> odd_descriptor_twice"
  "matches semver_re ''1.2.3''"
  by code_simp+

lemma example_manifest_1_2_3:
  "filter (grep_line version_word_re) (sed_package_json ''1.2.3'' example_manifest) \<noteq> []"
  by code_simp

text \<open>
  Without the condition on the lines the property fails: on the descriptor whose only line
  is \<^verbatim>\<open>versionName "versionCode 5" versionCode 7\<close>, the first application for
  version 1.2.3 leaves \<^verbatim>\<open>versionName "1.2.3" versionCode 7\<close> (the code inside the quotes
  was replaced, then the quoted text), and the second one changes it to
  \<^verbatim>\<open>versionName "1.2.3" versionCode 10203\<close>.
\<close>

theorem bump_twice_changes_odd_descriptor:
  "matches semver_re ''1.2.3'' \<and>
   build_gradle (final (apply_version example_env ''1.2.3''
     (example_world\<lparr>build_gradle := odd_descriptor\<rparr>))) = odd_descriptor_once \<and>
   build_gradle (final (apply_version example_env ''1.2.3''
     (final (apply_version example_env ''1.2.3''
        (example_world\<lparr>build_gradle := odd_descriptor\<rparr>))))) = odd_descriptor_twice \<and>
   odd_descriptor_once \<noteq> odd_descriptor_twice"
proof -
  let ?w = "example_world\<lparr>build_gradle := odd_descriptor\<rparr>"
  let ?p = "sed_package_json ''1.2.3'' example_manifest"
  have "if USE_JQ ?w then jq_set_version example_env ''1.2.3'' (package_json ?w) = Inr ?p
        else sed_package_json ''1.2.3'' (package_json ?w) = ?p"
    by (simp add: example_world_def)
  from apply_version_again[OF this example_manifest_1_2_3] obtain w1
    where w1: "apply_version example_env ''1.2.3'' ?w = Continue w1" "package_json w1 = ?p"
      "build_gradle w1 = odd_descriptor_once"
    by (auto simp: odd_descriptor_bumps)
  have nojq: "\<not> USE_JQ w1"
    using apply_version_Continue[OF w1(1)] by (simp add: example_world_def del: filter.simps)
  have "if USE_JQ w1 then jq_set_version example_env ''1.2.3'' (package_json w1) = Inr ?p
        else sed_package_json ''1.2.3'' (package_json w1) = ?p"
    using nojq w1(2) by (simp add: sed_package_json_twice[OF odd_descriptor_bumps(4)])
  from apply_version_again[OF this example_manifest_1_2_3] obtain w2
    where w2: "apply_version example_env ''1.2.3'' w1 = Continue w2"
      "build_gradle w2 = odd_descriptor_twice"
    by (auto simp: w1(3) odd_descriptor_bumps)
  from w1 w2 odd_descriptor_bumps(3,4) show ?thesis
    by (simp del: matches.simps)
qed

end
